theory Spec2Isabelle
  imports Main "HOL-Library.Word" "HOL-Library.Stream" "HOL-Library.Multiset"
begin

section \<open>Effects, errors and the external primitives\<close>

text \<open>
  The scheduler (\<^verbatim>\<open>boost/mmm/scheduler.hpp\<close>) and the reactor
  (\<^verbatim>\<open>boost/mmm/detail/async_io_thread.hpp\<close>) are modelled operation by operation.
  Every operation is a function from the state it reads to the state it leaves, together
  with the list of the effects it performs, in program order (\<open>Run a\<close> is the user
  action \<open>a\<close>, performed inside a context). Whatever
  other threads do while the mutex is released (inside \<^verbatim>\<open>wait\<close>, or while a context
  is resumed) is an input of the operation.
\<close>

type_synonym thread_id = nat

datatype thread = Thread (get_id: thread_id)

text \<open>
  The code of a user thread, as far as the scheduler can observe it: it performs actions,
  gives control back with \<^verbatim>\<open>suspend()\<close>, or exits with an exception.
\<close>

datatype 'a step = Act 'a | Suspend | Throw

text \<open>
  Modelled from the spec: the stackful context (Boost.Context, not code of this
  repository) with \<^verbatim>\<open>start\<close>, \<^verbatim>\<open>resume\<close>, \<^verbatim>\<open>suspend\<close> and the test for being finished.
  A default-constructed context is \<open>Not_a_context\<close>; the number is the stack size.
\<close>

datatype 'a context_type =
    Not_a_context
  | Created nat "'a step list"
  | Suspended nat "'a step list"
  | Complete nat

datatype 'a event =
    Lock | Unlock | Wait | Notify_one | Notify_all
  | Spawn thread | Join thread
  | Push_ctx "'a context_type" | Pop_ctx "'a context_type"
  | Set_current_ctx "'a context_type option"
  | Start "'a context_type" | Resume "'a context_type" | Run 'a
  | Write_terminate bool | Write_join bool

datatype error =
    Assertion_failed
  | Thread_resource_error
  | Std_terminate
  | Undefined_behaviour
  | Exception_escaped

type_synonym ('a, 'r) result = "(error + 'r) \<times> 'a event list"

text \<open>
  Running the code of a context until control comes back to the caller: the context it
  leaves, the user actions performed, and whether an exception came out. A functor that
  exits abnormally counts as finished.
\<close>

fun run :: "nat \<Rightarrow> 'a step list \<Rightarrow> 'a context_type \<times> 'a list \<times> bool" where
  "run sz [] = (Complete sz, [], False)"
| "run sz (Act a # c) = (case run sz c of (ctx, acts, raised) \<Rightarrow> (ctx, a # acts, raised))"
| "run sz (Suspend # c) = (Suspended sz c, [], False)"
| "run sz (Throw # c) = (Complete sz, [], True)"

fun ctx_start :: "'a context_type \<Rightarrow> ('a context_type \<times> 'a list \<times> bool) option" where
  "ctx_start (Created sz c) = Some (run sz c)"
| "ctx_start _ = None"

fun ctx_resume :: "'a context_type \<Rightarrow> ('a context_type \<times> 'a list \<times> bool) option" where
  "ctx_resume (Suspended sz c) = Some (run sz c)"
| "ctx_resume _ = None"

fun is_complete :: "'a context_type \<Rightarrow> bool" where
  "is_complete (Complete sz) = True"
| "is_complete _ = False"

section \<open>The scheduler\<close>

record 'a scheduler =
  m_terminate :: bool
  m_join :: bool
  m_kernels :: "(thread_id \<times> thread) list"
  m_users :: "'a context_type list"

text \<open>
  Modelled from the spec: the strategy (\<^verbatim>\<open>strategy_traits.hpp\<close> is not among the
  sources). \<^verbatim>\<open>push_ctx\<close> inserts into the runnable pool, \<^verbatim>\<open>pop_ctx\<close> removes the
  next context to run, \<^verbatim>\<open>pool_size\<close> is the size; the order is the recommended FIFO.
\<close>

definition push_ctx :: "'a scheduler \<Rightarrow> 'a context_type \<Rightarrow> 'a scheduler" where
  "push_ctx s ctx = s\<lparr>m_users := m_users s @ [ctx]\<rparr>"

definition pop_ctx :: "'a scheduler \<Rightarrow> ('a context_type \<times> 'a scheduler) option" where
  "pop_ctx s = (case m_users s of [] \<Rightarrow> None | ctx # rest \<Rightarrow> Some (ctx, s\<lparr>m_users := rest\<rparr>))"

definition pool_size :: "'a scheduler \<Rightarrow> nat" where
  "pool_size s = length (m_users s)"

subsection \<open>Construction\<close>

text \<open>
  \<^verbatim>\<open>_m_kernels.emplace(th.get_id(), move(th))\<close> on the ordered map: the entry is
  inserted when the key is new, and the second component of the result says so.
\<close>

definition emplace ::
  "thread_id \<Rightarrow> thread \<Rightarrow> (thread_id \<times> thread) list \<Rightarrow> (thread_id \<times> thread) list \<times> bool" where
  "emplace k v m =
     (case map_of m k of
        None \<Rightarrow> (insort_key fst (k, v) m, True)
      | Some _ \<Rightarrow> (m, False))"

text \<open>
  \<^verbatim>\<open>while (default_size--) { thread th(...); r = _m_kernels.emplace(...); BOOST_ASSERT(r.second); }\<close>
  The threads the operating system hands out, in order, are the input \<open>os\<close>; when it has
  none left the \<^verbatim>\<open>thread\<close> constructor throws. \<^verbatim>\<open>std::size_t\<close> is taken 64 bits wide.
\<close>

function scheduler_loop ::
  "64 word \<Rightarrow> thread list \<Rightarrow> (thread_id \<times> thread) list \<Rightarrow> 'a event list
     \<Rightarrow> ('a, (thread_id \<times> thread) list) result" where
  "scheduler_loop default_size os kernels tr =
     (if default_size = 0 then (Inr kernels, tr)
      else case os of
          [] \<Rightarrow> (Inl Thread_resource_error, tr)
        | th # os' \<Rightarrow>
            (case emplace (get_id th) th kernels of
               (kernels', r_second) \<Rightarrow>
                 if \<not> r_second then (Inl Assertion_failed, tr @ [Spawn th])
                 else scheduler_loop (default_size - 1) os' kernels' (tr @ [Spawn th])))"
  by pat_completeness auto
termination
  by (relation "measure (\<lambda>(default_size, os, kernels, tr). unat default_size)")
     (auto simp: measure_unat)

definition scheduler_ctor :: "64 word \<Rightarrow> thread list \<Rightarrow> ('a, 'a scheduler) result" where
  "scheduler_ctor default_size os =
     (case scheduler_loop default_size os [] [] of
        (Inl e, tr) \<Rightarrow> (Inl e, tr)
      | (Inr kernels, tr) \<Rightarrow>
          (Inr \<lparr>m_terminate = False, m_join = False, m_kernels = kernels, m_users = []\<rparr>, tr))"

subsection \<open>The current-context slot and starting a context\<close>

text \<open>
  Modelled from the spec: the thread-local slot of \<^verbatim>\<open>current_context.hpp\<close> (not among
  the sources). \<^verbatim>\<open>set_current_ctx(p)\<close> is the effect \<open>Set_current_ctx p\<close>; the value of
  the calling thread's slot after a list of effects is the last value written.
\<close>

fun current_ctx_after :: "'a context_type option \<Rightarrow> 'a event list \<Rightarrow> 'a context_type option" where
  "current_ctx_after slot [] = slot"
| "current_ctx_after slot (Set_current_ctx p # tr) = current_ctx_after p tr"
| "current_ctx_after slot (e # tr) = current_ctx_after slot tr"

text \<open>
  \<^verbatim>\<open>context_starter::operator()\<close>: \<^verbatim>\<open>_m_ctx.get().suspend(); _m_functor();\<close>
\<close>

definition context_starter :: "'a step list \<Rightarrow> 'a step list" where
  "context_starter functor = Suspend # functor"

text \<open>
  \<^verbatim>\<open>start_context\<close>: the scope exit clears the slot however \<^verbatim>\<open>ctx.start()\<close> is left.
  Starting a context that is not freshly created fails Boost.Context's assertion, which
  aborts the process.
\<close>

definition start_context :: "'a context_type \<Rightarrow> ('a, 'a context_type) result" where
  "start_context ctx =
     (case ctx_start ctx of
        None \<Rightarrow> (Inl Assertion_failed, [Set_current_ctx (Some ctx), Start ctx])
      | Some (ctx', acts, raised) \<Rightarrow>
          (if raised then Inl Exception_escaped else Inr ctx',
           [Set_current_ctx (Some ctx), Start ctx] @ map Run acts @ [Set_current_ctx None]))"

subsection \<open>\<^verbatim>\<open>add_thread\<close>, \<^verbatim>\<open>join_all\<close>, \<^verbatim>\<open>joinable\<close> and the destructor\<close>

definition add_thread :: "nat \<Rightarrow> 'a step list \<Rightarrow> 'a scheduler \<Rightarrow> ('a, 'a scheduler) result" where
  "add_thread stacksize fn s =
     (case start_context (Created stacksize (context_starter fn)) of
        (Inl e, tr) \<Rightarrow> (Inl e, tr)
      | (Inr ctx, tr) \<Rightarrow> (Inr (push_ctx s ctx), tr @ [Lock, Push_ctx ctx, Notify_one, Unlock]))"

text \<open>
  \<^verbatim>\<open>while (_m_users.size()) { _m_cond.wait(guard); _m_cond.notify_one(); }\<close>
  The list \<open>env\<close> holds the shared state found on each return from \<^verbatim>\<open>wait\<close>; when the
  pool is not empty and no wake-up is left, the caller stays blocked and nothing is returned.
\<close>

fun join_loop :: "'a scheduler \<Rightarrow> 'a scheduler list \<Rightarrow> ('a scheduler \<times> 'a event list) option" where
  "join_loop s [] = (if pool_size s \<noteq> 0 then None else Some (s, []))"
| "join_loop s (s' # env) =
     (if pool_size s \<noteq> 0
      then (case join_loop s' env of
              None \<Rightarrow> None
            | Some (s'', tr) \<Rightarrow> Some (s'', Wait # Notify_one # tr))
      else Some (s, []))"

definition join_all :: "'a scheduler \<Rightarrow> 'a scheduler list \<Rightarrow> ('a scheduler \<times> 'a event list) option" where
  "join_all s env =
     (case join_loop (s\<lparr>m_join := True\<rparr>) env of
        None \<Rightarrow> None
      | Some (s', tr) \<Rightarrow>
          Some (s'\<lparr>m_join := False\<rparr>, [Lock, Write_join True] @ tr @ [Write_join False, Unlock]))"

definition joinable :: "'a scheduler \<Rightarrow> bool \<times> 'a event list" where
  "joinable s = (pool_size s \<noteq> 0, [Lock, Unlock])"

definition scheduler_dtor :: "'a scheduler \<Rightarrow> ('a, 'a scheduler) result" where
  "scheduler_dtor s =
     (case joinable s of
        (j, tr) \<Rightarrow>
          if j then (Inl Std_terminate, tr)
          else (Inr (s\<lparr>m_terminate := True\<rparr>),
                tr @ [Lock, Write_terminate True, Notify_all, Unlock]
                   @ map (\<lambda>itr. Join (snd itr)) (m_kernels s)))"

subsection \<open>The worker loop\<close>

text \<open>
  Modelled from the spec: the context guard (\<^verbatim>\<open>context_guard\<close> is declared outside the
  sources). On entry it takes a context from the strategy's pool; it converts to true
  when that context is not finished; on scope exit it pushes an unfinished context back.
\<close>

definition context_guard_ctor :: "'a scheduler \<Rightarrow> ('a context_type \<times> 'a scheduler) option" where
  "context_guard_ctor s = pop_ctx s"

definition context_guard_bool :: "'a context_type \<Rightarrow> bool" where
  "context_guard_bool ctx = (\<not> is_complete ctx)"

definition context_guard_dtor :: "'a scheduler \<Rightarrow> 'a context_type \<Rightarrow> 'a scheduler \<times> 'a event list" where
  "context_guard_dtor s ctx =
     (if \<not> is_complete ctx then (push_ctx s ctx, [Push_ctx ctx]) else (s, []))"

text \<open>
  \<^verbatim>\<open>while (!_m_terminate && !_m_users.size()) { _m_cond.wait(guard); }\<close>
\<close>

fun wait_for_work ::
  "'a scheduler \<Rightarrow> 'a scheduler list \<Rightarrow> ('a scheduler \<times> 'a event list) option" where
  "wait_for_work s [] = (if \<not> m_terminate s \<and> pool_size s = 0 then None else Some (s, []))"
| "wait_for_work s (s' # env) =
     (if \<not> m_terminate s \<and> pool_size s = 0
      then (case wait_for_work s' env of
              None \<Rightarrow> None
            | Some (s'', tr) \<Rightarrow> Some (s'', Wait # tr))
      else Some (s, []))"

text \<open>
  One turn of the \<^verbatim>\<open>while (true)\<close> of \<^verbatim>\<open>_m_exec\<close>. \<open>Break\<close> is the \<^verbatim>\<open>break\<close> on
  termination, \<open>Continue\<close> the end of the loop body. \<open>others\<close> is what the other threads
  do to the shared state while the mutex is released around \<^verbatim>\<open>ctx.resume()\<close>.
  An exception out of \<^verbatim>\<open>resume\<close> runs the scope exit and the destructors of the guards
  and leaves the thread function.
\<close>

datatype 'a worker_exit = Break "'a scheduler" | Continue "'a scheduler"

definition m_exec_body ::
  "'a scheduler \<Rightarrow> 'a scheduler list \<Rightarrow> ('a scheduler \<Rightarrow> 'a scheduler)
     \<Rightarrow> ('a, 'a worker_exit) result option" where
  "m_exec_body s env others =
     (case wait_for_work s env of
        None \<Rightarrow> None
      | Some (s1, waits) \<Rightarrow>
          if m_terminate s1 then Some (Inr (Break s1), Lock # waits @ [Unlock])
          else (case context_guard_ctor s1 of
                  None \<Rightarrow> Some (Inl Undefined_behaviour, Lock # waits)
                | Some (ctx, s2) \<Rightarrow>
                    (case ctx_resume ctx of
                       None \<Rightarrow>
                         Some (Inl Assertion_failed,
                               Lock # waits @ [Pop_ctx ctx, Unlock, Set_current_ctx (Some ctx), Resume ctx])
                     | Some (ctx', acts, raised) \<Rightarrow>
                         (let s3 = others s2;
                              resumed = Lock # waits @ [Pop_ctx ctx, Unlock, Set_current_ctx (Some ctx), Resume ctx]
                                          @ map Run acts @ [Set_current_ctx None, Lock];
                              notified = (if raised \<or> \<not> context_guard_bool ctx' then []
                                          else if m_join s3 then [Notify_all] else [Notify_one])
                          in case context_guard_dtor s3 ctx' of
                               (s4, pushed) \<Rightarrow>
                                 Some (if raised then Inl Exception_escaped else Inr (Continue s4),
                                       resumed @ notified @ pushed @ [Unlock])))))"

subsection \<open>Reading the effects of an operation\<close>

text \<open>
  The notifications of the condition variable among the effects of an operation, and the
  effects that give a reason to notify: a context is put into the runnable pool (a new
  one, or one handed back unfinished after a resume), or termination is set. An operation
  notifies exactly on such a reason when it notifies if and only if one of its effects
  is such a reason.
\<close>

fun notification :: "'a event \<Rightarrow> bool" where
  "notification Notify_one = True"
| "notification Notify_all = True"
| "notification _ = False"

fun cause :: "'a event \<Rightarrow> bool" where
  "cause (Push_ctx ctx) = True"
| "cause (Write_terminate b) = b"
| "cause _ = False"

definition notified_exactly_on_cause :: "'a event list \<Rightarrow> bool" where
  "notified_exactly_on_cause tr = (list_ex notification tr = list_ex cause tr)"

text \<open>The effects that touch a context or the current-context slot.\<close>

fun ctx_event :: "'a event \<Rightarrow> bool" where
  "ctx_event (Set_current_ctx p) = True"
| "ctx_event (Start ctx) = True"
| "ctx_event (Resume ctx) = True"
| "ctx_event (Run a) = True"
| "ctx_event _ = False"

section \<open>The reactor\<close>

text \<open>
  \<^verbatim>\<open>io::detail::pollfd\<close> (\<^verbatim>\<open>poll.hpp\<close>): the descriptor, the requested and the
  returned events.
\<close>

record pollfd =
  fd :: int
  events :: int
  revents :: int

definition polling_events_in :: int where
  "polling_events_in = 1"

text \<open>
  \<^verbatim>\<open>poll_result_handling\<close>: the error code is \<^verbatim>\<open>errno\<close> when the result is negative and
  the null code otherwise; \<^verbatim>\<open>!err_code\<close> is the test that the code is \<open>0\<close>.
\<close>

definition poll_result_handling :: "int \<Rightarrow> int \<Rightarrow> int \<times> int" where
  "poll_result_handling result errno = (result, if result < 0 then errno else 0)"

text \<open>
  What one call of the operating system's \<^verbatim>\<open>::poll\<close> does is an input: its result, the
  \<^verbatim>\<open>errno\<close> it leaves, and the returned events it writes into the records, in order.
\<close>

record poll_os =
  os_result :: int
  os_errno :: int
  os_revents :: "int list"

fun write_revents :: "pollfd list \<Rightarrow> int list \<Rightarrow> pollfd list" where
  "write_revents [] rs = []"
| "write_revents (p # ps) [] = p # ps"
| "write_revents (p # ps) (r # rs) = p\<lparr>revents := r\<rparr> # write_revents ps rs"

definition poll_fds :: "pollfd list \<Rightarrow> poll_os \<Rightarrow> pollfd list \<times> int \<times> int" where
  "poll_fds fds os =
     (write_revents fds (os_revents os), poll_result_handling (os_result os) (os_errno os))"

text \<open>
  Modelled from the spec: the self-pipe (\<^verbatim>\<open>pipe.hpp\<close> is not among the sources), with its
  two ends and whether the read end has been closed.
\<close>

record pipefd =
  read_end :: int
  write_end :: int
  read_closed :: bool

text \<open>
  An iterator into the list of parked contexts \<^verbatim>\<open>_m_ctxact\<close>: the default-constructed
  one is singular, any other designates a node of the list. A node is its address and the
  context stored in it.
\<close>

datatype ctxact_iterator = Singular | Node nat

record 'a async_io_thread =
  m_th :: thread
  m_ctxact :: "(nat \<times> 'a context_type) list"
  m_ctxitr :: "ctxact_iterator list"
  m_pfds :: "pollfd list"
  m_pipe :: pipefd

definition async_io_thread_ctor :: "thread \<Rightarrow> pipefd \<Rightarrow> 'a async_io_thread" where
  "async_io_thread_ctor th pipe =
     \<lparr>m_th = th, m_ctxact = [], m_ctxitr = [Singular],
      m_pfds = [\<lparr>fd = read_end pipe, events = polling_events_in, revents = 0\<rparr>],
      m_pipe = pipe\<rparr>"

definition check_event :: "pollfd \<times> ctxact_iterator \<Rightarrow> bool" where
  "check_event pfd = (revents (fst pfd) \<noteq> 0)"

text \<open>
  \<^verbatim>\<open>std::partition\<close> belongs to the C++ standard library; it is a parameter \<open>part\<close> of
  the model, which gives the rearranged range and the position of the returned iterator
  in it. For a range whose elements can be exchanged the standard promises that the range
  is permuted, that the elements satisfying the predicate come before the others, and
  that the returned iterator is at the first element of the second group; it leaves the
  order inside either group open. Where a property below needs this promise, it is a
  hypothesis; \<open>zip_partition\<close> further down is the call as the program makes it, over its
  own zip iterator, and does not keep the promise.
\<close>

definition partition_contract :: "(('x \<Rightarrow> bool) \<Rightarrow> 'x list \<Rightarrow> 'x list \<times> nat) \<Rightarrow> bool" where
  "partition_contract part \<longleftrightarrow>
     (\<forall>P xs. mset (fst (part P xs)) = mset xs
          \<and> snd (part P xs) \<le> length xs
          \<and> (\<forall>x \<in> set (take (snd (part P xs)) (fst (part P xs))). P x)
          \<and> (\<forall>x \<in> set (drop (snd (part P xs)) (fst (part P xs))). \<not> P x))"

text \<open>One function that keeps the promise: the one that also keeps the order.\<close>

definition partition_in_order :: "('x \<Rightarrow> bool) \<Rightarrow> 'x list \<Rightarrow> 'x list \<times> nat" where
  "partition_in_order P xs = (filter P xs @ filter (\<lambda>x. \<not> P x) xs, length (filter P xs))"

text \<open>
  The call as the program makes it. The range is a pair of \<^verbatim>\<open>zip_iterator\<close>s, whose
  category is the random-access one and whose value type is the tuple of references that
  \<^verbatim>\<open>operator*\<close> returns; no \<^verbatim>\<open>swap\<close> is provided for it. For such iterators libstdc++
  partitions from both ends: it skips the elements at the front that satisfy the
  predicate, then the elements at the back that do not, exchanges the two elements it
  stopped at with \<^verbatim>\<open>iter_swap\<close> and goes on between them. \<^verbatim>\<open>iter_swap(a, b)\<close> is
  \<^verbatim>\<open>tmp = *a; *a = *b; *b = tmp\<close> with \<^verbatim>\<open>tmp\<close> of the value type: here \<^verbatim>\<open>tmp\<close> refers to
  the slots of \<^verbatim>\<open>a\<close>, so the pair of \<^verbatim>\<open>b\<close> is written over the pair of \<^verbatim>\<open>a\<close> and
  \<^verbatim>\<open>b\<close> keeps its own. The result is the range as it is left and the position of the
  returned iterator.
\<close>

function zip_partition :: "('x \<Rightarrow> bool) \<Rightarrow> 'x list \<Rightarrow> 'x list \<times> nat" where
  "zip_partition P [] = ([], 0)"
| "zip_partition P (x # xs) =
     (if P x
      then (case zip_partition P xs of (ys, k) \<Rightarrow> (x # ys, Suc k))
      else (case dropWhile (\<lambda>y. \<not> P y) (rev xs) of
              [] \<Rightarrow> (x # xs, 0)
            | y # front \<Rightarrow>
                (case zip_partition P (rev front) of
                   (ys, k) \<Rightarrow>
                     (y # ys @ y # rev (takeWhile (\<lambda>y. \<not> P y) (rev xs)), Suc k))))"
  by pat_completeness auto
termination
proof (relation "measure (\<lambda>(P, xs). length xs)")
  show "wf (measure (\<lambda>(P, xs). length xs))" by simp
next
  fix P :: "'x \<Rightarrow> bool" and x xs
  show "((P, xs), (P, x # xs)) \<in> measure (\<lambda>(P, xs). length xs)" by simp
next
  fix P :: "'x \<Rightarrow> bool" and x xs y front
  assume "dropWhile (\<lambda>y. \<not> P y) (rev xs) = y # front"
  then have "length (y # front) \<le> length (rev xs)"
    by (metis length_dropWhile_le)
  then show "((P, rev front), (P, x # xs)) \<in> measure (\<lambda>(P, xs). length xs)" by simp
qed

text \<open>
  A range on which that partition has nothing to exchange: behind its leading elements
  that satisfy the predicate no element satisfies it.
\<close>

definition in_partition_order :: "('x \<Rightarrow> bool) \<Rightarrow> 'x list \<Rightarrow> bool" where
  "in_partition_order P xs = list_all (\<lambda>x. \<not> P x) (dropWhile P xs)"

text \<open>
  The call of \<^verbatim>\<open>std::partition\<close> in \<^verbatim>\<open>exec\<close>, over the zipped range from the second
  element of both vectors to their ends; the result is the new state and the position
  \<^verbatim>\<open>itr\<close>. Vectors that are empty or of different sizes make the range invalid. With
  \<open>zip_partition\<close> for \<open>part\<close> it is the call as the program makes it.
\<close>

definition exec_partition ::
  "((pollfd \<times> ctxact_iterator \<Rightarrow> bool) \<Rightarrow> (pollfd \<times> ctxact_iterator) list
      \<Rightarrow> (pollfd \<times> ctxact_iterator) list \<times> nat)
   \<Rightarrow> 'a async_io_thread \<Rightarrow> ('a async_io_thread \<times> nat) option" where
  "exec_partition part s =
     (if m_pfds s = [] \<or> length (m_pfds s) \<noteq> length (m_ctxitr s) then None
      else (case part check_event (zip (tl (m_pfds s)) (tl (m_ctxitr s))) of
              (zs, k) \<Rightarrow>
                Some (s\<lparr>m_pfds := hd (m_pfds s) # map fst zs,
                        m_ctxitr := hd (m_ctxitr s) # map snd zs\<rparr>,
                      Suc k)))"

text \<open>
  \<^verbatim>\<open>restore_and_erase\<close>. First, under the scheduler's mutex, every context designated by
  an iterator of the range is moved into the strategy's pool; the node keeps a moved-from
  context. Dereferencing an iterator that designates no node of the list is undefined.
\<close>

fun deref :: "(nat \<times> 'a context_type) list \<Rightarrow> ctxact_iterator \<Rightarrow> 'a context_type option" where
  "deref ctxact Singular = None"
| "deref ctxact (Node a) = map_of ctxact a"

fun moved_from :: "(nat \<times> 'a context_type) list \<Rightarrow> ctxact_iterator \<Rightarrow> (nat \<times> 'a context_type) list" where
  "moved_from ctxact Singular = ctxact"
| "moved_from ctxact (Node a) = map (\<lambda>(b, ctx). if b = a then (b, Not_a_context) else (b, ctx)) ctxact"

fun restore ::
  "'a scheduler \<Rightarrow> (nat \<times> 'a context_type) list \<Rightarrow> ctxact_iterator list
     \<Rightarrow> ('a scheduler \<times> (nat \<times> 'a context_type) list \<times> 'a event list) option" where
  "restore sched ctxact [] = Some (sched, ctxact, [])"
| "restore sched ctxact (it # its) =
     (case deref ctxact it of
        None \<Rightarrow> None
      | Some ctx \<Rightarrow>
          (case restore (push_ctx sched ctx) (moved_from ctxact it) its of
             None \<Rightarrow> None
           | Some (sched', ctxact', tr) \<Rightarrow> Some (sched', ctxact', Push_ctx ctx # tr)))"

text \<open>
  Then every node designated by an iterator of the range is erased from the list;
  erasing through an iterator that designates no node of the list is undefined.
\<close>

fun erase_all ::
  "(nat \<times> 'a context_type) list \<Rightarrow> ctxact_iterator list \<Rightarrow> (nat \<times> 'a context_type) list option" where
  "erase_all ctxact [] = Some ctxact"
| "erase_all ctxact (it # its) =
     (case deref ctxact it of
        None \<Rightarrow> None
      | Some ctx \<Rightarrow> erase_all (filter (\<lambda>node. Node (fst node) \<noteq> it) ctxact) its)"

definition restore_and_erase ::
  "nat \<Rightarrow> 'a async_io_thread \<times> 'a scheduler
     \<Rightarrow> ('a, 'a async_io_thread \<times> 'a scheduler) result" where
  "restore_and_erase itr st =
     (case st of
        (s, sched) \<Rightarrow>
          (case restore sched (m_ctxact s) (drop itr (m_ctxitr s)) of
             None \<Rightarrow> (Inl Undefined_behaviour, [Lock])
           | Some (sched', ctxact', tr) \<Rightarrow>
               (case erase_all ctxact' (drop itr (m_ctxitr s)) of
                  None \<Rightarrow> (Inl Undefined_behaviour, Lock # tr @ [Unlock])
                | Some ctxact'' \<Rightarrow>
                    (Inr (s\<lparr>m_ctxact := ctxact'',
                            m_pfds := take itr (m_pfds s),
                            m_ctxitr := take itr (m_ctxitr s)\<rparr>, sched'),
                     Lock # tr @ [Unlock]))))"

text \<open>
  One turn of the \<^verbatim>\<open>while (true)\<close> of \<^verbatim>\<open>exec\<close>: poll; if there is no error and the
  result is positive, partition, and if \<^verbatim>\<open>itr != zipend\<close> call \<^verbatim>\<open>restore_and_erase\<close> on
  the range from \<^verbatim>\<open>itr\<close> to the end.
\<close>

definition exec_body ::
  "((pollfd \<times> ctxact_iterator \<Rightarrow> bool) \<Rightarrow> (pollfd \<times> ctxact_iterator) list
      \<Rightarrow> (pollfd \<times> ctxact_iterator) list \<times> nat)
   \<Rightarrow> poll_os \<Rightarrow> 'a async_io_thread \<times> 'a scheduler
   \<Rightarrow> ('a, 'a async_io_thread \<times> 'a scheduler) result" where
  "exec_body part os st =
     (case st of
        (s, sched) \<Rightarrow>
          (case poll_fds (m_pfds s) os of
             (fds, ret, err_code) \<Rightarrow>
               if err_code = 0 \<and> 0 < ret
               then (case exec_partition part (s\<lparr>m_pfds := fds\<rparr>) of
                       None \<Rightarrow> (Inl Undefined_behaviour, [])
                     | Some (s', itr) \<Rightarrow>
                         if itr \<noteq> length (m_pfds s')
                         then restore_and_erase itr (s', sched)
                         else (Inr (s', sched), []))
               else (Inr (s\<lparr>m_pfds := fds\<rparr>, sched), [])))"

text \<open>
  \<^verbatim>\<open>exec\<close>: the loop itself, taken to run on the state the constructor has left or a
  later one. Each turn takes what the operating system's poll does and the scheduler's
  state at that time from the stream \<open>env\<close>. The value \<open>None\<close> is the loop that never
  returns; \<open>Some (Inr ())\<close> would be a return of \<^verbatim>\<open>exec\<close>, \<open>Some (Inl e)\<close> its end in \<open>e\<close>.
\<close>

partial_function (option) exec ::
  "((pollfd \<times> ctxact_iterator \<Rightarrow> bool) \<Rightarrow> (pollfd \<times> ctxact_iterator) list
      \<Rightarrow> (pollfd \<times> ctxact_iterator) list \<times> nat)
   \<Rightarrow> (poll_os \<times> 'a scheduler) stream \<Rightarrow> 'a async_io_thread \<Rightarrow> (error + unit) option" where
  "exec part env s =
     (case fst (exec_body part (fst (shd env)) (s, snd (shd env))) of
        Inl e \<Rightarrow> Some (Inl e)
      | Inr st \<Rightarrow> exec part (stl env) (fst st))"

text \<open>
  The destructor closes the read end of the pipe and joins the thread that runs \<^verbatim>\<open>exec\<close>:
  it returns when \<^verbatim>\<open>exec\<close> does.
\<close>

definition async_io_thread_dtor ::
  "((pollfd \<times> ctxact_iterator \<Rightarrow> bool) \<Rightarrow> (pollfd \<times> ctxact_iterator) list
      \<Rightarrow> (pollfd \<times> ctxact_iterator) list \<times> nat)
   \<Rightarrow> (poll_os \<times> 'a scheduler) stream \<Rightarrow> 'a async_io_thread \<Rightarrow> (error + unit) option" where
  "async_io_thread_dtor part env s =
     exec part env (s\<lparr>m_pipe := (m_pipe s)\<lparr>read_closed := True\<rparr>\<rparr>)"

text \<open>
  Modelled from the spec: registration (its code is not among the sources). It appends
  the descriptor record to the descriptor vector, inserts the context into the parked list
  in a fresh node at address \<open>a\<close>, and appends the iterator to that node.
\<close>

definition register_ctx ::
  "nat \<Rightarrow> pollfd \<Rightarrow> 'a context_type \<Rightarrow> 'a async_io_thread \<Rightarrow> 'a async_io_thread" where
  "register_ctx a pfd ctx s =
     s\<lparr>m_pfds := m_pfds s @ [pfd],
       m_ctxact := m_ctxact s @ [(a, ctx)],
       m_ctxitr := m_ctxitr s @ [Node a]\<rparr>"

text \<open>
  The three structures have equal length (the reading of C8 as it is written), and what
  the code keeps instead: the two vectors have equal length and start with the read end
  of the pipe and the singular iterator, and the other iterators designate the nodes of
  the parked list, each node once.
\<close>

definition equal_length :: "'a async_io_thread \<Rightarrow> bool" where
  "equal_length s \<longleftrightarrow>
     length (m_pfds s) = length (m_ctxitr s) \<and> length (m_ctxitr s) = length (m_ctxact s)"

definition aligned :: "'a async_io_thread \<Rightarrow> bool" where
  "aligned s \<longleftrightarrow>
     length (m_pfds s) = length (m_ctxitr s) \<and> m_pfds s \<noteq> []
     \<and> fd (hd (m_pfds s)) = read_end (m_pipe s) \<and> hd (m_ctxitr s) = Singular
     \<and> distinct (map fst (m_ctxact s)) \<and> distinct (tl (m_ctxitr s))
     \<and> set (tl (m_ctxitr s)) = Node ` fst ` set (m_ctxact s)"

section \<open>Verified properties\<close>

subsection \<open>Construction of the scheduler\<close>

lemma scheduler_loop_run:
  "unat n \<le> length os \<Longrightarrow> distinct (map get_id (take (unat n) os))
   \<Longrightarrow> get_id ` set (take (unat n) os) \<inter> fst ` set kernels = {}
   \<Longrightarrow> scheduler_loop n os kernels tr
       = (Inr (fold (\<lambda>th. insort_key fst (get_id th, th)) (take (unat n) os) kernels),
          tr @ map Spawn (take (unat n) os))"
proof (induction n os kernels tr rule: scheduler_loop.induct)
  case (1 default_size os kernels tr)
  show ?case
  proof (cases "default_size = 0")
    case True
    then show ?thesis by (simp add: scheduler_loop.simps[of default_size])
  next
    case False
    then have pos: "unat default_size = Suc (unat (default_size - 1))"
      by (simp add: unat_minus_one unat_gt_0)
    with "1.prems"(1) obtain th os' where os: "os = th # os'" by (cases os) auto
    have fresh: "map_of kernels (get_id th) = None"
      using "1.prems"(3) pos os by (auto simp: map_of_eq_None_iff)
    have em: "emplace (get_id th) th kernels = (insort_key fst (get_id th, th) kernels, True)"
      by (simp add: emplace_def fresh)
    have ih: "scheduler_loop (default_size - 1) os' (insort_key fst (get_id th, th) kernels) (tr @ [Spawn th])
       = (Inr (fold (\<lambda>th. insort_key fst (get_id th, th)) (take (unat (default_size - 1)) os')
                (insort_key fst (get_id th, th) kernels)),
          (tr @ [Spawn th]) @ map Spawn (take (unat (default_size - 1)) os'))"
      apply (rule "1.IH"[OF False os em[symmetric]])
      using "1.prems" pos os by (auto simp: set_insort_key)
    show ?thesis
      using False os em ih pos by (simp add: scheduler_loop.simps[of default_size])
  qed
qed

lemma set_fold_insort:
  "set (fold (\<lambda>th. insort_key fst (get_id th, th)) ths kernels)
     = (\<lambda>th. (get_id th, th)) ` set ths \<union> set kernels"
  by (induction ths arbitrary: kernels) (auto simp: set_insort_key)

lemma length_fold_insort:
  "length (fold (\<lambda>th. insort_key fst (get_id th, th)) ths kernels) = length ths + length kernels"
  by (induction ths arbitrary: kernels) auto

lemma sorted_fold_insort:
  "sorted (map fst kernels) \<Longrightarrow>
   sorted (map fst (fold (\<lambda>th. insort_key fst (get_id th, th)) ths kernels))"
  by (induction ths arbitrary: kernels) (auto simp: sorted_insort_key)

text \<open>
  C10. For every worker count \<open>n\<close> the constructor completes normally: provided the
  operating system hands out \<open>n\<close> threads with pairwise different ids, it spawns exactly
  those \<open>n\<close> threads and records each of them in the worker table under its own id, with
  both flags false and an empty pool. The count \<open>0\<close> is accepted whatever the operating
  system would hand out, and gives the empty worker table.
\<close>

theorem scheduler_ctor_spawns_workers:
  assumes "unat n \<le> length os" and "distinct (map get_id (take (unat n) os))"
  shows "(\<exists>s. (scheduler_ctor n os :: ('a, 'a scheduler) result)
                 = (Inr s, map Spawn (take (unat n) os))
             \<and> \<not> m_terminate s \<and> \<not> m_join s \<and> m_users s = []
             \<and> length (m_kernels s) = unat n
             \<and> set (m_kernels s) = (\<lambda>th. (get_id th, th)) ` set (take (unat n) os)
             \<and> sorted (map fst (m_kernels s)))
         \<and> (scheduler_ctor 0 os' :: ('a, 'a scheduler) result)
             = (Inr \<lparr>m_terminate = False, m_join = False, m_kernels = [], m_users = []\<rparr>, [])"
proof -
  have "scheduler_loop n os [] ([] :: 'a event list)
      = (Inr (fold (\<lambda>th. insort_key fst (get_id th, th)) (take (unat n) os) []),
         [] @ map Spawn (take (unat n) os))"
    using assms by (intro scheduler_loop_run) auto
  then have "\<exists>s. (scheduler_ctor n os :: ('a, 'a scheduler) result)
                 = (Inr s, map Spawn (take (unat n) os))
           \<and> \<not> m_terminate s \<and> \<not> m_join s \<and> m_users s = []
           \<and> length (m_kernels s) = unat n
           \<and> set (m_kernels s) = (\<lambda>th. (get_id th, th)) ` set (take (unat n) os)
           \<and> sorted (map fst (m_kernels s))"
    using assms(1)
    by (simp add: scheduler_ctor_def set_fold_insort length_fold_insort sorted_fold_insort)
  moreover have "(scheduler_ctor 0 os' :: ('a, 'a scheduler) result)
           = (Inr \<lparr>m_terminate = False, m_join = False, m_kernels = [], m_users = []\<rparr>, [])"
    by (simp add: scheduler_ctor_def)
  ultimately show ?thesis by blast
qed

theorem scheduler_ctor_spawns_workers_witness:
  "(scheduler_ctor 2 [Thread 7, Thread 3, Thread 9] :: (unit, unit scheduler) result)
     = (Inr \<lparr>m_terminate = False, m_join = False,
             m_kernels = [(3, Thread 3), (7, Thread 7)], m_users = []\<rparr>,
        [Spawn (Thread 7), Spawn (Thread 3)])
   \<and> (scheduler_ctor 0 [] :: (unit, unit scheduler) result)
     = (Inr \<lparr>m_terminate = False, m_join = False, m_kernels = [], m_users = []\<rparr>, [])"
proof -
  have two: "unat (2 :: 64 word) = Suc (Suc 0)" by simp
  have h1: "unat (2 :: 64 word) \<le> length [Thread 7, Thread 3, Thread 9]" by simp
  have h2: "distinct (map get_id (take (unat (2 :: 64 word)) [Thread 7, Thread 3, Thread 9]))"
    by (simp add: two)
  obtain s :: "unit scheduler" where
    s: "scheduler_ctor 2 [Thread 7, Thread 3, Thread 9] = (Inr s, [Spawn (Thread 7), Spawn (Thread 3)])"
       "\<not> m_terminate s" "\<not> m_join s" "m_users s = []"
       "set (m_kernels s) = {(7, Thread 7), (3, Thread 3)}" "sorted (map fst (m_kernels s))"
       "length (m_kernels s) = 2"
    and z: "(scheduler_ctor 0 [] :: (unit, unit scheduler) result)
     = (Inr \<lparr>m_terminate = False, m_join = False, m_kernels = [], m_users = []\<rparr>, [])"
    using scheduler_ctor_spawns_workers [OF h1 h2, where 'a = unit and os' = "[]"]
    by (auto simp: two)
  have "scheduler_loop 2 [Thread 7, Thread 3, Thread 9] [] ([] :: unit event list)
          = (Inr [(3, Thread 3), (7, Thread 7)], [Spawn (Thread 7), Spawn (Thread 3)])"
    by (simp add: scheduler_loop.simps[of 2] scheduler_loop.simps[of 1]
        scheduler_loop.simps[of 0] emplace_def)
  then have "(scheduler_ctor 2 [Thread 7, Thread 3, Thread 9] :: (unit, unit scheduler) result)
     = (Inr \<lparr>m_terminate = False, m_join = False,
             m_kernels = [(3, Thread 3), (7, Thread 7)], m_users = []\<rparr>,
        [Spawn (Thread 7), Spawn (Thread 3)])"
    by (simp add: scheduler_ctor_def)
  with z show ?thesis by simp
qed

subsection \<open>The destructor of the scheduler\<close>

text \<open>
  C6. \<^verbatim>\<open>joinable()\<close> is true exactly when the pool holds a user thread. The destructor
  then calls \<^verbatim>\<open>std::terminate\<close> and does nothing else; otherwise it sets the termination
  flag and broadcasts the condition variable between taking and releasing the mutex, and
  after that joins every thread of the worker table, each once, in the table's order.
\<close>

theorem scheduler_dtor_aborts_or_tears_down:
  "fst (joinable s) = (m_users s \<noteq> []) \<and>
   scheduler_dtor s =
     (if m_users s \<noteq> [] then (Inl Std_terminate, [Lock, Unlock])
      else (Inr (s\<lparr>m_terminate := True\<rparr>),
            [Lock, Unlock, Lock, Write_terminate True, Notify_all, Unlock]
              @ map Join (map snd (m_kernels s))))"
  by (simp add: scheduler_dtor_def joinable_def pool_size_def)

theorem scheduler_dtor_aborts_or_tears_down_witness:
  "scheduler_dtor \<lparr>m_terminate = False, m_join = False,
        m_kernels = [(3, Thread 3), (7, Thread 7)], m_users = [Suspended 0 [Act ()]]\<rparr>
     = (Inl Std_terminate, [Lock, Unlock])
   \<and> scheduler_dtor \<lparr>m_terminate = False, m_join = False,
        m_kernels = [(3, Thread 3), (7, Thread 7)], m_users = ([] :: unit context_type list)\<rparr>
     = (Inr \<lparr>m_terminate = True, m_join = False,
              m_kernels = [(3, Thread 3), (7, Thread 7)], m_users = []\<rparr>,
        [Lock, Unlock, Lock, Write_terminate True, Notify_all, Unlock,
         Join (Thread 3), Join (Thread 7)])"
  using scheduler_dtor_aborts_or_tears_down [of "\<lparr>m_terminate = False, m_join = False,
        m_kernels = [(3, Thread 3), (7, Thread 7)], m_users = [Suspended 0 [Act ()]]\<rparr>"]
    scheduler_dtor_aborts_or_tears_down [of "\<lparr>m_terminate = False, m_join = False,
        m_kernels = [(3, Thread 3), (7, Thread 7)], m_users = ([] :: unit context_type list)\<rparr>"]
  by simp

subsection \<open>\<^verbatim>\<open>join_all\<close>\<close>

lemma join_loop_None:
  "join_loop s env = None \<longleftrightarrow> (m_users s \<noteq> [] \<and> (\<forall>e \<in> set env. m_users e \<noteq> []))"
proof (induction env arbitrary: s)
  case Nil
  show ?case by (simp add: pool_size_def)
next
  case (Cons e env)
  have "join_loop s (e # env) = None \<longleftrightarrow> (m_users s \<noteq> [] \<and> join_loop e env = None)"
    by (simp add: pool_size_def split: option.splits)
  then show ?case using Cons.IH[of e] by simp
qed

lemma join_loop_Some:
  "join_loop s env = Some (s', tr) \<Longrightarrow>
     \<exists>k \<le> length env. tr = concat (replicate k [Wait, Notify_one]) \<and> s' = (s # env) ! k
        \<and> m_users s' = [] \<and> (\<forall>i < k. m_users ((s # env) ! i) \<noteq> [])"
proof (induction env arbitrary: s tr)
  case Nil
  then show ?case by (auto simp: pool_size_def split: if_splits)
next
  case (Cons e env)
  show ?case
  proof (cases "m_users s = []")
    case True
    with Cons.prems show ?thesis by (auto simp: pool_size_def)
  next
    case False
    with Cons.prems obtain tr' where r: "join_loop e env = Some (s', tr')"
      and tr: "tr = Wait # Notify_one # tr'"
      by (auto simp: pool_size_def split: option.splits)
    from Cons.IH[OF r] obtain k where k: "k \<le> length env"
      "tr' = concat (replicate k [Wait, Notify_one])" "s' = (e # env) ! k"
      "m_users s' = []" "\<forall>i < k. m_users ((e # env) ! i) \<noteq> []" by blast
    have "\<forall>i < Suc k. m_users ((s # e # env) ! i) \<noteq> []"
      using k(5) False by (auto simp: less_Suc_eq_0_disj)
    with k tr show ?thesis
      by (intro exI[of _ "Suc k"]) auto
  qed
qed

text \<open>
  C5. \<^verbatim>\<open>join_all\<close> takes the mutex and sets the join flag; as long as the pool is not
  empty it waits and, after each wake, notifies one waiter; it clears the join flag and
  releases the mutex. It returns exactly when the pool is empty at entry or after one of
  the wakes (otherwise it stays blocked), it returns at the first such moment with the
  pool empty and the join flag false, and \<^verbatim>\<open>joinable()\<close> on the state it leaves is false.
\<close>

theorem join_all_drains_pool:
  "(join_all s env = None \<longleftrightarrow> (m_users s \<noteq> [] \<and> (\<forall>e \<in> set env. m_users e \<noteq> []))) \<and>
   (\<forall>s' tr. join_all s env = Some (s', tr) \<longrightarrow>
      m_users s' = [] \<and> \<not> m_join s' \<and> \<not> fst (joinable s') \<and>
      (\<exists>k \<le> length env.
          tr = [Lock, Write_join True] @ concat (replicate k [Wait, Notify_one])
                 @ [Write_join False, Unlock]
        \<and> s' = ((s\<lparr>m_join := True\<rparr> # env) ! k)\<lparr>m_join := False\<rparr>
        \<and> (\<forall>i < k. m_users ((s # env) ! i) \<noteq> [])))"
proof (intro conjI allI impI)
  show "join_all s env = None \<longleftrightarrow> (m_users s \<noteq> [] \<and> (\<forall>e \<in> set env. m_users e \<noteq> []))"
    using join_loop_None[of "s\<lparr>m_join := True\<rparr>" env]
    by (auto simp: join_all_def split: option.splits)
next
  fix s' tr assume a: "join_all s env = Some (s', tr)"
  then obtain s1 tr1 where l: "join_loop (s\<lparr>m_join := True\<rparr>) env = Some (s1, tr1)"
    and s': "s' = s1\<lparr>m_join := False\<rparr>"
    and tr: "tr = [Lock, Write_join True] @ tr1 @ [Write_join False, Unlock]"
    by (auto simp: join_all_def split: option.splits)
  from join_loop_Some[OF l] obtain k where k: "k \<le> length env"
    "tr1 = concat (replicate k [Wait, Notify_one])" "s1 = (s\<lparr>m_join := True\<rparr> # env) ! k"
    "m_users s1 = []" "\<forall>i < k. m_users ((s\<lparr>m_join := True\<rparr> # env) ! i) \<noteq> []" by blast
  have nz: "\<forall>i < k. m_users ((s # env) ! i) \<noteq> []"
  proof (intro allI impI)
    fix i assume "i < k"
    with k(5) have "m_users ((s\<lparr>m_join := True\<rparr> # env) ! i) \<noteq> []" by blast
    then show "m_users ((s # env) ! i) \<noteq> []" by (cases i) auto
  qed
  show "m_users s' = []" using s' k(4) by simp
  show "\<not> m_join s'" using s' by simp
  show "\<not> fst (joinable s')" using s' k(4) by (simp add: joinable_def pool_size_def)
  show "\<exists>k \<le> length env.
          tr = [Lock, Write_join True] @ concat (replicate k [Wait, Notify_one])
                 @ [Write_join False, Unlock]
        \<and> s' = ((s\<lparr>m_join := True\<rparr> # env) ! k)\<lparr>m_join := False\<rparr>
        \<and> (\<forall>i < k. m_users ((s # env) ! i) \<noteq> [])"
    using k(1,2,3) nz s' tr by (intro exI[of _ k]) simp
qed

theorem join_all_drains_pool_witness:
  "join_all \<lparr>m_terminate = False, m_join = False, m_kernels = [(3, Thread 3)],
             m_users = [Suspended 0 [Act ()], Suspended 0 []]\<rparr>
     [\<lparr>m_terminate = False, m_join = True, m_kernels = [(3, Thread 3)],
        m_users = [Suspended 0 []]\<rparr>,
      \<lparr>m_terminate = False, m_join = True, m_kernels = [(3, Thread 3)], m_users = []\<rparr>]
     = Some (\<lparr>m_terminate = False, m_join = False, m_kernels = [(3, Thread 3)], m_users = []\<rparr>,
             [Lock, Write_join True, Wait, Notify_one, Wait, Notify_one, Write_join False, Unlock])
   \<and> \<not> fst (joinable \<lparr>m_terminate = False, m_join = False, m_kernels = [(3, Thread 3)],
                        m_users = ([] :: unit context_type list)\<rparr>)
   \<and> join_all \<lparr>m_terminate = False, m_join = False, m_kernels = [(3, Thread 3)],
               m_users = [Suspended 0 [Act ()], Suspended 0 []]\<rparr>
     [\<lparr>m_terminate = False, m_join = True, m_kernels = [(3, Thread 3)],
        m_users = [Suspended 0 []]\<rparr>] = None"
proof -
  let ?s0 = "\<lparr>m_terminate = False, m_join = False, m_kernels = [(3, Thread 3)],
               m_users = [Suspended 0 [Act ()], Suspended 0 []]\<rparr>"
  let ?s1 = "\<lparr>m_terminate = False, m_join = True, m_kernels = [(3, Thread 3)],
               m_users = [Suspended 0 []]\<rparr> :: unit scheduler"
  let ?s2 = "\<lparr>m_terminate = False, m_join = True, m_kernels = [(3, Thread 3)],
               m_users = []\<rparr> :: unit scheduler"
  let ?s3 = "\<lparr>m_terminate = False, m_join = False, m_kernels = [(3, Thread 3)],
               m_users = []\<rparr> :: unit scheduler"
  have run: "join_all ?s0 [?s1, ?s2]
      = Some (?s3, [Lock, Write_join True, Wait, Notify_one, Wait, Notify_one, Write_join False, Unlock])"
    by (simp add: join_all_def pool_size_def)
  from join_all_drains_pool [of ?s0 "[?s1, ?s2]"] run
  have "\<not> fst (joinable ?s3)" by blast
  moreover from join_all_drains_pool [of ?s0 "[?s1]"]
  have "join_all ?s0 [?s1] = None" by simp
  ultimately show ?thesis using run by simp
qed

subsection \<open>\<^verbatim>\<open>add_thread\<close>\<close>

text \<open>
  C7. The priming wrapper suspends at once on its first entry, with the functor as what
  remains to run. \<^verbatim>\<open>add_thread\<close> starts the wrapped context, which performs no action of
  the functor and comes back suspended in front of it; only after that it takes the mutex,
  pushes that primed context at the strategy's pool, notifies one waiter, once, and
  releases the mutex. The first resume of the pushed context runs the functor.
\<close>

theorem add_thread_primes_then_pushes:
  "run stacksize (context_starter fn) = (Suspended stacksize fn, [], False) \<and>
   add_thread stacksize fn s =
     (Inr (s\<lparr>m_users := m_users s @ [Suspended stacksize fn]\<rparr>),
      [Set_current_ctx (Some (Created stacksize (context_starter fn))),
       Start (Created stacksize (context_starter fn)),
       Set_current_ctx None,
       Lock, Push_ctx (Suspended stacksize fn), Notify_one, Unlock]) \<and>
   ctx_resume (Suspended stacksize fn) = Some (run stacksize fn)"
  by (simp add: add_thread_def start_context_def context_starter_def push_ctx_def)

theorem add_thread_primes_then_pushes_witness:
  "add_thread 4096 [Act (1::nat), Suspend, Act 2]
      \<lparr>m_terminate = False, m_join = False, m_kernels = [(3, Thread 3)], m_users = []\<rparr>
     = (Inr \<lparr>m_terminate = False, m_join = False, m_kernels = [(3, Thread 3)],
             m_users = [Suspended 4096 [Act 1, Suspend, Act 2]]\<rparr>,
        [Set_current_ctx (Some (Created 4096 [Suspend, Act 1, Suspend, Act 2])),
         Start (Created 4096 [Suspend, Act 1, Suspend, Act 2]),
         Set_current_ctx None,
         Lock, Push_ctx (Suspended 4096 [Act 1, Suspend, Act 2]), Notify_one, Unlock])
   \<and> ctx_resume (Suspended 4096 [Act (1::nat), Suspend, Act 2])
     = Some (Suspended 4096 [Act 2], [1], False)"
  using add_thread_primes_then_pushes [of 4096 "[Act (1::nat), Suspend, Act 2]"
      "\<lparr>m_terminate = False, m_join = False, m_kernels = [(3, Thread 3)], m_users = []\<rparr>"]
  by (simp add: context_starter_def)

subsection \<open>The worker loop and the current-context slot\<close>

lemma wait_for_work_Some:
  "wait_for_work s env = Some (s1, waits) \<Longrightarrow>
     set waits \<subseteq> {Wait} \<and> (m_terminate s1 \<or> m_users s1 \<noteq> []) \<and> s1 \<in> set (s # env)"
proof (induction env arbitrary: s waits)
  case Nil
  then show ?case by (auto simp: pool_size_def split: if_splits)
next
  case (Cons e env)
  show ?case
  proof (cases "\<not> m_terminate s \<and> pool_size s = 0")
    case False
    with Cons.prems show ?thesis by (auto simp: pool_size_def)
  next
    case True
    with Cons.prems obtain w where r: "wait_for_work e env = Some (s1, w)" and w: "waits = Wait # w"
      by (auto split: option.splits)
    from Cons.IH[OF r] w show ?thesis by auto
  qed
qed

lemma filter_waits:
  "set waits \<subseteq> {Wait} \<Longrightarrow> filter notification waits = [] \<and> filter cause waits = []
     \<and> filter ctx_event waits = [] \<and> current_ctx_after slot waits = slot"
  by (induction waits) auto

lemma Resume_in_waits: "set waits \<subseteq> {Wait} \<Longrightarrow> Resume c \<notin> set waits"
  by auto

lemma m_exec_body_cases:
  assumes "m_exec_body s env others = Some (r, tr)"
  obtains
    (break) s1 waits where "wait_for_work s env = Some (s1, waits)" "m_terminate s1"
      "r = Inr (Break s1)" "tr = Lock # waits @ [Unlock]"
  | (abort) s1 waits ctx rest where "wait_for_work s env = Some (s1, waits)" "\<not> m_terminate s1"
      "m_users s1 = ctx # rest" "ctx_resume ctx = None" "r = Inl Assertion_failed"
      "tr = Lock # waits @ [Pop_ctx ctx, Unlock, Set_current_ctx (Some ctx), Resume ctx]"
  | (resumed) s1 waits ctx rest ctx' acts raised where
      "wait_for_work s env = Some (s1, waits)" "\<not> m_terminate s1"
      "m_users s1 = ctx # rest" "ctx_resume ctx = Some (ctx', acts, raised)"
      "r = (if raised then Inl Exception_escaped
            else Inr (Continue (fst (context_guard_dtor (others (s1\<lparr>m_users := rest\<rparr>)) ctx'))))"
      "tr = (Lock # waits @ [Pop_ctx ctx, Unlock, Set_current_ctx (Some ctx), Resume ctx]
               @ map Run acts @ [Set_current_ctx None, Lock])
            @ (if raised \<or> is_complete ctx' then []
               else if m_join (others (s1\<lparr>m_users := rest\<rparr>)) then [Notify_all] else [Notify_one])
            @ snd (context_guard_dtor (others (s1\<lparr>m_users := rest\<rparr>)) ctx') @ [Unlock]"
proof -
  from assms obtain s1 waits where w: "wait_for_work s env = Some (s1, waits)"
    by (auto simp: m_exec_body_def split: option.splits)
  show thesis
  proof (cases "m_terminate s1")
    case True
    with assms w show thesis by (intro break[of s1 waits]) (auto simp: m_exec_body_def)
  next
    case False
    with wait_for_work_Some[OF w] obtain ctx rest where u: "m_users s1 = ctx # rest"
      by (cases "m_users s1") auto
    then have g: "context_guard_ctor s1 = Some (ctx, s1\<lparr>m_users := rest\<rparr>)"
      by (simp add: context_guard_ctor_def pop_ctx_def)
    show thesis
    proof (cases "ctx_resume ctx")
      case None
      with assms w False g u show thesis
        by (intro abort[of s1 waits ctx rest]) (auto simp: m_exec_body_def)
    next
      case (Some p)
      obtain ctx' acts raised where p: "p = (ctx', acts, raised)" by (cases p) auto
      with assms w False g u Some show thesis
        by (intro resumed[of s1 waits ctx rest ctx' acts raised])
           (auto simp: m_exec_body_def Let_def context_guard_bool_def split: prod.splits)
    qed
  qed
qed

lemma run_raised_complete: "run sz c = (ctx', acts, True) \<Longrightarrow> is_complete ctx'"
  by (induction sz c arbitrary: ctx' acts rule: run.induct) (auto split: prod.splits)

lemma ctx_resume_raised_complete: "ctx_resume ctx = Some (ctx', acts, True) \<Longrightarrow> is_complete ctx'"
  by (cases ctx) (auto dest: run_raised_complete)

lemma filter_ctx_event_Run [simp]: "filter ctx_event (map Run acts) = map Run acts"
  by (induction acts) auto

lemma filter_notification_Run [simp]: "filter notification (map Run acts) = []"
  by (induction acts) auto

lemma filter_cause_Run [simp]: "filter cause (map Run acts) = []"
  by (induction acts) auto

lemma current_ctx_after_append [simp]:
  "current_ctx_after slot (tr @ tr') = current_ctx_after (current_ctx_after slot tr) tr'"
  by (induction slot tr rule: current_ctx_after.induct) auto

lemma current_ctx_after_Run [simp]: "current_ctx_after slot (map Run acts) = slot"
  by (induction acts) auto

text \<open>
  C9. \<^verbatim>\<open>start_context\<close> writes the context into the current-context slot immediately
  before the start and clears the slot when the start is left, whether it returns or an
  exception comes out. A turn of the worker loop that ends in the \<^verbatim>\<open>break\<close> on
  termination does not touch the slot or any context; every other turn that does not abort
  inside \<^verbatim>\<open>resume\<close> writes the context into the slot immediately before the resume and
  clears it right after the actions of the resumed context, also when the resume is left
  by an exception. After each of them the slot is null.
\<close>

theorem current_ctx_set_around_resume:
  "(\<exists>r acts. start_context (Created sz c)
        = (r, [Set_current_ctx (Some (Created sz c)), Start (Created sz c)]
                @ map Run acts @ [Set_current_ctx None]))
   \<and> current_ctx_after slot (snd (start_context (Created sz c))) = None
   \<and> (\<forall>r tr. m_exec_body s env others = Some (r, tr) \<and> r \<noteq> Inl Assertion_failed \<longrightarrow>
         ((\<exists>s1. r = Inr (Break s1)) \<and> filter ctx_event tr = []
             \<and> current_ctx_after slot tr = slot)
       \<or> ((\<forall>s1. r \<noteq> Inr (Break s1))
             \<and> (\<exists>pre ctx acts post.
                    tr = pre @ [Set_current_ctx (Some ctx), Resume ctx] @ map Run acts
                           @ [Set_current_ctx None] @ post
                  \<and> filter ctx_event pre = [] \<and> filter ctx_event post = [])
             \<and> current_ctx_after slot tr = None))"
proof (intro conjI allI impI)
  show "\<exists>r acts. start_context (Created sz c)
        = (r, [Set_current_ctx (Some (Created sz c)), Start (Created sz c)]
                @ map Run acts @ [Set_current_ctx None])"
    by (cases "run sz c") (auto simp: start_context_def)
  show "current_ctx_after slot (snd (start_context (Created sz c))) = None"
    by (cases "run sz c") (auto simp: start_context_def)
next
  fix r tr
  assume a: "m_exec_body s env others = Some (r, tr) \<and> r \<noteq> Inl Assertion_failed"
  then have b: "m_exec_body s env others = Some (r, tr)" and na: "r \<noteq> Inl Assertion_failed"
    by auto
  from b show "((\<exists>s1. r = Inr (Break s1)) \<and> filter ctx_event tr = []
             \<and> current_ctx_after slot tr = slot)
       \<or> ((\<forall>s1. r \<noteq> Inr (Break s1))
             \<and> (\<exists>pre ctx acts post.
                    tr = pre @ [Set_current_ctx (Some ctx), Resume ctx] @ map Run acts
                           @ [Set_current_ctx None] @ post
                  \<and> filter ctx_event pre = [] \<and> filter ctx_event post = [])
             \<and> current_ctx_after slot tr = None)"
  proof (cases rule: m_exec_body_cases)
    case (break s1 waits)
    from wait_for_work_Some[OF break(1)] have "set waits \<subseteq> {Wait}" by simp
    from filter_waits[OF this, of slot] break show ?thesis by simp
  next
    case (abort s1 waits ctx rest)
    with na show ?thesis by simp
  next
    case (resumed s1 waits ctx rest ctx' acts raised)
    from wait_for_work_Some[OF resumed(1)] have w: "set waits \<subseteq> {Wait}" by simp
    let ?pre = "Lock # waits @ [Pop_ctx ctx, Unlock]"
    let ?post = "Lock # (if raised \<or> is_complete ctx' then []
               else if m_join (others (s1\<lparr>m_users := rest\<rparr>)) then [Notify_all] else [Notify_one])
            @ snd (context_guard_dtor (others (s1\<lparr>m_users := rest\<rparr>)) ctx') @ [Unlock]"
    have t: "tr = ?pre @ [Set_current_ctx (Some ctx), Resume ctx] @ map Run acts
                    @ [Set_current_ctx None] @ ?post"
      using resumed(6) by simp
    have p1: "filter ctx_event ?pre = []"
      using filter_waits[OF w, of slot] by simp
    have p2: "filter ctx_event ?post = []"
      by (simp add: context_guard_dtor_def)
    have c: "current_ctx_after slot tr = None"
      using filter_waits[OF w, of slot] resumed(6)
      by (auto simp: context_guard_dtor_def)
    from resumed(5) have "\<forall>s1. r \<noteq> Inr (Break s1)" by auto
    with t p1 p2 c show ?thesis by blast
  qed
qed

theorem current_ctx_set_around_resume_witness:
  "m_exec_body
      \<lparr>m_terminate = False, m_join = False, m_kernels = [(3, Thread 3)], m_users = []\<rparr>
      [\<lparr>m_terminate = False, m_join = False, m_kernels = [(3, Thread 3)],
         m_users = [Suspended 0 [Act (1::nat), Throw, Act 2]]\<rparr>]
      (\<lambda>s. s)
     = Some (Inl Exception_escaped,
         [Lock, Wait, Pop_ctx (Suspended 0 [Act 1, Throw, Act 2]), Unlock,
          Set_current_ctx (Some (Suspended 0 [Act 1, Throw, Act 2])),
          Resume (Suspended 0 [Act 1, Throw, Act 2]), Run 1,
          Set_current_ctx None, Lock, Unlock])
   \<and> current_ctx_after (Some Not_a_context)
         [Lock, Wait, Pop_ctx (Suspended 0 [Act 1, Throw, Act 2]), Unlock,
          Set_current_ctx (Some (Suspended 0 [Act 1, Throw, Act 2])),
          Resume (Suspended 0 [Act 1, Throw, Act 2]), Run (1::nat),
          Set_current_ctx None, Lock, Unlock] = None
   \<and> start_context (Created 0 [Act (1::nat), Throw])
     = (Inl Exception_escaped,
        [Set_current_ctx (Some (Created 0 [Act 1, Throw])), Start (Created 0 [Act 1, Throw]),
         Run 1, Set_current_ctx None])"
proof -
  let ?s = "\<lparr>m_terminate = False, m_join = False, m_kernels = [(3, Thread 3)],
              m_users = ([] :: nat context_type list)\<rparr>"
  let ?e = "\<lparr>m_terminate = False, m_join = False, m_kernels = [(3, Thread 3)],
         m_users = [Suspended 0 [Act (1::nat), Throw, Act 2]]\<rparr>"
  let ?tr = "[Lock, Wait, Pop_ctx (Suspended 0 [Act 1, Throw, Act 2]), Unlock,
          Set_current_ctx (Some (Suspended 0 [Act 1, Throw, Act 2])),
          Resume (Suspended 0 [Act 1, Throw, Act 2]), Run (1::nat),
          Set_current_ctx None, Lock, Unlock]"
  have run: "m_exec_body ?s [?e] (\<lambda>s. s) = Some (Inl Exception_escaped, ?tr)"
    by (simp add: m_exec_body_def pool_size_def context_guard_ctor_def pop_ctx_def
        context_guard_bool_def context_guard_dtor_def)
  have ne: "(Inl Exception_escaped :: error + nat worker_exit) \<noteq> Inl Assertion_failed" by simp
  from current_ctx_set_around_resume [of 0 "[Act (1::nat), Throw]" "Some Not_a_context" ?s "[?e]" "\<lambda>s. s"]
  have "\<forall>r tr. m_exec_body ?s [?e] (\<lambda>s. s) = Some (r, tr) \<and> r \<noteq> Inl Assertion_failed \<longrightarrow>
         ((\<exists>s1. r = Inr (Break s1)) \<and> filter ctx_event tr = []
             \<and> current_ctx_after (Some Not_a_context) tr = Some Not_a_context)
       \<or> ((\<forall>s1. r \<noteq> Inr (Break s1))
             \<and> (\<exists>pre ctx acts post.
                    tr = pre @ [Set_current_ctx (Some ctx), Resume ctx] @ map Run acts
                           @ [Set_current_ctx None] @ post
                  \<and> filter ctx_event pre = [] \<and> filter ctx_event post = [])
             \<and> current_ctx_after (Some Not_a_context) tr = None)"
    by blast
  with run ne have "current_ctx_after (Some Not_a_context) ?tr = None"
    by blast
  moreover have "start_context (Created 0 [Act (1::nat), Throw])
     = (Inl Exception_escaped,
        [Set_current_ctx (Some (Created 0 [Act 1, Throw])), Start (Created 0 [Act 1, Throw]),
         Run 1, Set_current_ctx None])"
    by (simp add: start_context_def)
  ultimately show ?thesis using run by simp
qed

subsection \<open>When the condition variable is notified\<close>

text \<open>
  C4 as it is written fails: \<^verbatim>\<open>join_all\<close>, woken once and finding the pool empty, has
  notified one waiter, and none of its effects is a reason of the claim's list.
\<close>

theorem join_all_notifies_without_cause:
  "join_all \<lparr>m_terminate = False, m_join = False, m_kernels = [(3, Thread 3)],
             m_users = [Suspended 0 [Act ()]]\<rparr>
     [\<lparr>m_terminate = False, m_join = True, m_kernels = [(3, Thread 3)], m_users = []\<rparr>]
     = Some (\<lparr>m_terminate = False, m_join = False, m_kernels = [(3, Thread 3)], m_users = []\<rparr>,
             [Lock, Write_join True, Wait, Notify_one, Write_join False, Unlock])
   \<and> \<not> notified_exactly_on_cause
         ([Lock, Write_join True, Wait, Notify_one, Write_join False, Unlock] :: unit event list)"
  by (simp add: join_all_def pool_size_def notified_exactly_on_cause_def)

lemma join_notifications:
  "filter notification (concat (replicate k [Wait, Notify_one])) = replicate k Notify_one"
  "filter cause (concat (replicate k [Wait, Notify_one])) = []"
  "length (filter (\<lambda>e. e = Wait) (concat (replicate k [Wait, Notify_one]))) = k"
  by (induction k) auto

text \<open>
  C4, as the code has it. \<^verbatim>\<open>add_thread\<close> notifies one waiter once, having pushed the new
  context. The destructor broadcasts once when it sets termination and notifies nobody
  when it aborts. A turn of the worker loop notifies exactly when the resumed context
  comes back unfinished and is handed back to the pool: all waiters if the join flag is
  set at that time, one waiter otherwise; it notifies nobody when the context finished,
  when the resume is left by an exception or abort, or when the worker leaves on
  termination. \<^verbatim>\<open>join_all\<close> notifies one waiter after each of its wakes, although it
  makes no context runnable and does not set termination.
\<close>

theorem notifications_of_each_operation:
  "filter notification (snd (add_thread stacksize fn s)) = [Notify_one]
   \<and> filter cause (snd (add_thread stacksize fn s)) = [Push_ctx (Suspended stacksize fn)]
   \<and> filter notification (snd (scheduler_dtor s)) = (if m_users s \<noteq> [] then [] else [Notify_all])
   \<and> filter cause (snd (scheduler_dtor s)) = (if m_users s \<noteq> [] then [] else [Write_terminate True])
   \<and> (\<forall>r tr. m_exec_body s env others = Some (r, tr) \<longrightarrow>
          (filter cause tr = [] \<and> filter notification tr = []
            \<and> (\<forall>c0 ctx acts raised. Resume c0 \<in> set tr \<and> ctx_resume c0 = Some (ctx, acts, raised)
                   \<longrightarrow> is_complete ctx))
        \<or> (\<exists>c0 ctx acts s3. Resume c0 \<in> set tr \<and> ctx_resume c0 = Some (ctx, acts, False)
              \<and> \<not> is_complete ctx
              \<and> r = Inr (Continue (push_ctx s3 ctx))
              \<and> filter cause tr = [Push_ctx ctx]
              \<and> filter notification tr = [if m_join s3 then Notify_all else Notify_one]))
   \<and> (\<forall>s' tr. join_all s env = Some (s', tr) \<longrightarrow>
          filter cause tr = []
        \<and> filter notification tr = replicate (length (filter (\<lambda>e. e = Wait) tr)) Notify_one)"
proof (intro conjI allI impI)
  show "filter notification (snd (add_thread stacksize fn s)) = [Notify_one]"
    by (simp add: add_thread_def start_context_def context_starter_def)
  show "filter cause (snd (add_thread stacksize fn s)) = [Push_ctx (Suspended stacksize fn)]"
    by (simp add: add_thread_def start_context_def context_starter_def)
  show "filter notification (snd (scheduler_dtor s)) = (if m_users s \<noteq> [] then [] else [Notify_all])"
    by (simp add: scheduler_dtor_def joinable_def pool_size_def filter_map comp_def)
  show "filter cause (snd (scheduler_dtor s)) = (if m_users s \<noteq> [] then [] else [Write_terminate True])"
    by (simp add: scheduler_dtor_def joinable_def pool_size_def filter_map comp_def)
next
  fix r tr assume "m_exec_body s env others = Some (r, tr)"
  then show "(filter cause tr = [] \<and> filter notification tr = []
            \<and> (\<forall>c0 ctx acts raised. Resume c0 \<in> set tr \<and> ctx_resume c0 = Some (ctx, acts, raised)
                   \<longrightarrow> is_complete ctx))
        \<or> (\<exists>c0 ctx acts s3. Resume c0 \<in> set tr \<and> ctx_resume c0 = Some (ctx, acts, False)
              \<and> \<not> is_complete ctx
              \<and> r = Inr (Continue (push_ctx s3 ctx))
              \<and> filter cause tr = [Push_ctx ctx]
              \<and> filter notification tr = [if m_join s3 then Notify_all else Notify_one])"
  proof (cases rule: m_exec_body_cases)
    case (break s1 waits)
    from wait_for_work_Some[OF break(1)] have w: "set waits \<subseteq> {Wait}" by simp
    from filter_waits[OF w, of None] Resume_in_waits[OF w] break show ?thesis by simp
  next
    case (abort s1 waits ctx rest)
    from wait_for_work_Some[OF abort(1)] have w: "set waits \<subseteq> {Wait}" by simp
    from filter_waits[OF w, of None] Resume_in_waits[OF w] abort show ?thesis by auto
  next
    case (resumed s1 waits ctx rest ctx' acts raised)
    from wait_for_work_Some[OF resumed(1)] have w: "set waits \<subseteq> {Wait}" by simp
    note fw = filter_waits[OF w, of None]
    have only: "\<And>c0. Resume c0 \<in> set tr \<Longrightarrow> c0 = ctx"
      using resumed(6) Resume_in_waits[OF w]
      by (auto simp: context_guard_dtor_def split: if_splits)
    have mem: "Resume ctx \<in> set tr" using resumed(6) by simp
    show ?thesis
    proof (cases "is_complete ctx'")
      case True
      have "filter cause tr = []" "filter notification tr = []"
        using True fw resumed(6) by (simp_all add: context_guard_dtor_def)
      moreover have "\<forall>c0 ctx'' acts' raised'. Resume c0 \<in> set tr
            \<and> ctx_resume c0 = Some (ctx'', acts', raised') \<longrightarrow> is_complete ctx''"
        using only resumed(4) True by auto
      ultimately show ?thesis by blast
    next
      case False
      with ctx_resume_raised_complete[of ctx ctx' acts] resumed(4) have nr: "\<not> raised" by auto
      let ?s3 = "others (s1\<lparr>m_users := rest\<rparr>)"
      have r: "r = Inr (Continue (push_ctx ?s3 ctx'))"
        using resumed(5) nr False by (simp add: context_guard_dtor_def)
      have c: "filter cause tr = [Push_ctx ctx']"
        using resumed(6) nr False fw by (simp add: context_guard_dtor_def)
      have n: "filter notification tr = [if m_join ?s3 then Notify_all else Notify_one]"
        using resumed(6) nr False fw by (simp add: context_guard_dtor_def)
      from resumed(4) nr have cr: "ctx_resume ctx = Some (ctx', acts, False)" by simp
      from mem cr r c n False show ?thesis by blast
    qed
  qed
next
  fix s' tr assume a: "join_all s env = Some (s', tr)"
  then obtain s1 tr1 where l: "join_loop (s\<lparr>m_join := True\<rparr>) env = Some (s1, tr1)"
    and tr: "tr = [Lock, Write_join True] @ tr1 @ [Write_join False, Unlock]"
    by (auto simp: join_all_def split: option.splits)
  from join_loop_Some[OF l] obtain k where k: "tr1 = concat (replicate k [Wait, Notify_one])"
    by blast
  show "filter cause tr = []" using tr k by (simp add: join_notifications)
  show "filter notification tr = replicate (length (filter (\<lambda>e. e = Wait) tr)) Notify_one"
    using tr k by (simp add: join_notifications)
qed

theorem notifications_of_each_operation_witness:
  "m_exec_body
      \<lparr>m_terminate = False, m_join = False, m_kernels = [(3, Thread 3)],
       m_users = [Suspended 0 [Act (1::nat), Suspend, Act 2]]\<rparr>
      [] (\<lambda>s. s\<lparr>m_join := True\<rparr>)
     = Some (Inr (Continue \<lparr>m_terminate = False, m_join = True, m_kernels = [(3, Thread 3)],
                            m_users = [Suspended 0 [Act 2]]\<rparr>),
         [Lock, Pop_ctx (Suspended 0 [Act 1, Suspend, Act 2]), Unlock,
          Set_current_ctx (Some (Suspended 0 [Act 1, Suspend, Act 2])),
          Resume (Suspended 0 [Act 1, Suspend, Act 2]), Run 1,
          Set_current_ctx None, Lock, Notify_all, Push_ctx (Suspended 0 [Act 2]), Unlock])
   \<and> filter notification
         [Lock, Pop_ctx (Suspended 0 [Act 1, Suspend, Act 2]), Unlock,
          Set_current_ctx (Some (Suspended 0 [Act 1, Suspend, Act 2])),
          Resume (Suspended 0 [Act 1, Suspend, Act 2]), Run (1::nat),
          Set_current_ctx None, Lock, Notify_all, Push_ctx (Suspended 0 [Act 2]), Unlock]
       = [Notify_all]
   \<and> filter notification (snd (add_thread 0 [Act (1::nat)]
         \<lparr>m_terminate = False, m_join = False, m_kernels = [(3, Thread 3)], m_users = []\<rparr>))
       = [Notify_one]"
proof -
  let ?s = "\<lparr>m_terminate = False, m_join = False, m_kernels = [(3, Thread 3)],
       m_users = [Suspended 0 [Act (1::nat), Suspend, Act 2]]\<rparr>"
  let ?s4 = "\<lparr>m_terminate = False, m_join = True, m_kernels = [(3, Thread 3)],
                            m_users = [Suspended 0 [Act (2::nat)]]\<rparr>"
  let ?tr = "[Lock, Pop_ctx (Suspended 0 [Act 1, Suspend, Act 2]), Unlock,
          Set_current_ctx (Some (Suspended 0 [Act 1, Suspend, Act 2])),
          Resume (Suspended 0 [Act 1, Suspend, Act 2]), Run (1::nat),
          Set_current_ctx None, Lock, Notify_all, Push_ctx (Suspended 0 [Act 2]), Unlock]"
  let ?t = "\<lparr>m_terminate = False, m_join = False, m_kernels = [(3, Thread 3)],
              m_users = ([] :: nat context_type list)\<rparr>"
  have run: "m_exec_body ?s [] (\<lambda>s. s\<lparr>m_join := True\<rparr>) = Some (Inr (Continue ?s4), ?tr)"
    by (simp add: m_exec_body_def pool_size_def context_guard_ctor_def pop_ctx_def
        context_guard_bool_def context_guard_dtor_def push_ctx_def)
  note inst1 = notifications_of_each_operation
      [of 0 "[Act (1::nat)]" ?t "[]" "\<lambda>s. s\<lparr>m_join := True\<rparr>"]
  note inst2 = notifications_of_each_operation
      [of 0 "[Act (1::nat)]" ?s "[]" "\<lambda>s. s\<lparr>m_join := True\<rparr>"]
  from inst1 have a: "filter notification (snd (add_thread 0 [Act (1::nat)] ?t)) = [Notify_one]"
    by blast
  from inst2 have "\<forall>r tr. m_exec_body ?s [] (\<lambda>s. s\<lparr>m_join := True\<rparr>) = Some (r, tr) \<longrightarrow>
          (filter cause tr = [] \<and> filter notification tr = []
            \<and> (\<forall>c0 ctx acts raised. Resume c0 \<in> set tr \<and> ctx_resume c0 = Some (ctx, acts, raised)
                   \<longrightarrow> is_complete ctx))
        \<or> (\<exists>c0 ctx acts s3. Resume c0 \<in> set tr \<and> ctx_resume c0 = Some (ctx, acts, False)
              \<and> \<not> is_complete ctx
              \<and> r = Inr (Continue (push_ctx s3 ctx))
              \<and> filter cause tr = [Push_ctx ctx]
              \<and> filter notification tr = [if m_join s3 then Notify_all else Notify_one])"
    by blast
  with run have "(filter cause ?tr = [] \<and> filter notification ?tr = []
            \<and> (\<forall>c0 ctx acts raised. Resume c0 \<in> set ?tr \<and> ctx_resume c0 = Some (ctx, acts, raised)
                   \<longrightarrow> is_complete ctx))
        \<or> (\<exists>c0 ctx acts s3. Resume c0 \<in> set ?tr \<and> ctx_resume c0 = Some (ctx, acts, False)
              \<and> \<not> is_complete ctx
              \<and> (Inr (Continue ?s4) :: error + nat worker_exit) = Inr (Continue (push_ctx s3 ctx))
              \<and> filter cause ?tr = [Push_ctx ctx]
              \<and> filter notification ?tr = [if m_join s3 then Notify_all else Notify_one])"
    by blast
  then have "filter notification ?tr = [Notify_all]"
    by (auto simp: push_ctx_def)
  with a run show ?thesis by simp
qed

subsection \<open>The reactor: what a turn of its loop keeps\<close>

lemma write_revents_length [simp]: "length (write_revents fds rs) = length fds"
  by (induction fds rs rule: write_revents.induct) auto

lemma write_revents_fd [simp]: "map fd (write_revents fds rs) = map fd fds"
  by (induction fds rs rule: write_revents.induct) auto

lemma write_revents_Nil_iff [simp]: "write_revents fds rs = [] \<longleftrightarrow> fds = []"
  by (induction fds rs rule: write_revents.induct) auto

lemma write_revents_hd_fd: "fds \<noteq> [] \<Longrightarrow> fd (hd (write_revents fds rs)) = fd (hd fds)"
  by (induction fds rs rule: write_revents.induct) auto

lemma partition_contract_in_order: "partition_contract partition_in_order"
  by (auto simp: partition_contract_def partition_in_order_def)

lemma partition_contractD:
  assumes "partition_contract part" and "part P xs = (zs, k)"
  shows "mset zs = mset xs" "k \<le> length xs" "\<forall>x \<in> set (take k zs). P x"
    "\<forall>x \<in> set (drop k zs). \<not> P x"
  using assms unfolding partition_contract_def
  by (metis fst_conv snd_conv)+

lemma aligned_exec_partition:
  assumes c: "partition_contract part" and a: "aligned s"
  shows "\<exists>s' k. exec_partition part s = Some (s', Suc k) \<and> aligned s'
           \<and> Suc k \<le> length (m_pfds s')
           \<and> m_ctxact s' = m_ctxact s \<and> m_pipe s' = m_pipe s \<and> m_th s' = m_th s
           \<and> length (m_pfds s') = length (m_pfds s)
           \<and> hd (m_pfds s') = hd (m_pfds s)
           \<and> mset (zip (tl (m_pfds s')) (tl (m_ctxitr s'))) = mset (zip (tl (m_pfds s)) (tl (m_ctxitr s)))
           \<and> (\<forall>p \<in> set (take k (tl (m_pfds s'))). revents p \<noteq> 0)
           \<and> (\<forall>p \<in> set (drop (Suc k) (m_pfds s')). revents p = 0)"
proof -
  let ?xs = "zip (tl (m_pfds s)) (tl (m_ctxitr s))"
  obtain zs k where p: "part check_event ?xs = (zs, k)" by (cases "part check_event ?xs") auto
  note d = partition_contractD[OF c p]
  from a have len: "length (m_pfds s) = length (m_ctxitr s)" and ne: "m_pfds s \<noteq> []"
    by (auto simp: aligned_def)
  have lt: "length (tl (m_pfds s)) = length (tl (m_ctxitr s))" using len by simp
  have m1: "mset (map snd zs) = mset (tl (m_ctxitr s))"
    using d(1) lt by (metis map_snd_zip mset_map)
  have lz: "length zs = length (m_pfds s) - 1"
    using d(1) lt by (metis length_tl length_zip min.idem mset_eq_length)
  let ?s' = "s\<lparr>m_pfds := hd (m_pfds s) # map fst zs, m_ctxitr := hd (m_ctxitr s) # map snd zs\<rparr>"
  have e: "exec_partition part s = Some (?s', Suc k)"
    using len ne p by (simp add: exec_partition_def)
  have al: "aligned ?s'"
    using a m1 mset_eq_setD[OF m1] mset_eq_imp_distinct_iff[OF m1]
    by (simp add: aligned_def)
  have k: "Suc k \<le> length (m_pfds ?s')" using d(2) lz lt by simp
  have z: "zip (map fst zs) (map snd zs) = zs" by (simp add: zip_map_fst_snd)
  have r1: "\<forall>p \<in> set (take k (map fst zs)). revents p \<noteq> 0"
    using d(3) by (auto simp: check_event_def take_map)
  have r2: "\<forall>p \<in> set (drop k (map fst zs)). revents p = 0"
    using d(4) by (auto simp: check_event_def drop_map)
  show ?thesis
    using e al k lz ne d(1) z r1 r2 by (intro exI[of _ ?s'] exI[of _ k]) (cases "m_pfds s"; simp)
qed

lemma deref_valid: "it \<in> Node ` fst ` set ctxact \<Longrightarrow> \<exists>ctx. deref ctxact it = Some ctx"
  by (cases it) (auto simp: map_of_eq_None_iff[symmetric] image_iff dest!: weak_map_of_SomeI split: option.splits)

lemma moved_from_keys [simp]: "map fst (moved_from ctxact it) = map fst ctxact"
  by (cases it) (auto simp: case_prod_unfold)

lemma restore_valid:
  "set its \<subseteq> Node ` fst ` set ctxact \<Longrightarrow>
     \<exists>sched' ctxact' tr. restore sched ctxact its = Some (sched', ctxact', tr)
        \<and> map fst ctxact' = map fst ctxact \<and> length tr = length its
        \<and> list_all cause tr \<and> filter notification tr = []
        \<and> m_users sched' = m_users sched @ map (\<lambda>e. case e of Push_ctx ctx \<Rightarrow> ctx | _ \<Rightarrow> Not_a_context) tr"
proof (induction its arbitrary: sched ctxact)
  case Nil
  then show ?case by simp
next
  case (Cons it its)
  from Cons.prems deref_valid[of it ctxact] obtain ctx where d: "deref ctxact it = Some ctx" by auto
  have "set its \<subseteq> Node ` fst ` set (moved_from ctxact it)"
    using Cons.prems by (metis (no_types, lifting) moved_from_keys set_map set_subset_Cons subset_trans)
  from Cons.IH[OF this, of "push_ctx sched ctx"] d show ?case
    by (auto simp: push_ctx_def)
qed

lemma erase_all_valid:
  "set its \<subseteq> Node ` fst ` set ctxact \<Longrightarrow> distinct its \<Longrightarrow>
     erase_all ctxact its = Some (filter (\<lambda>node. Node (fst node) \<notin> set its) ctxact)"
proof (induction its arbitrary: ctxact)
  case Nil
  then show ?case by simp
next
  case (Cons it its)
  from Cons.prems deref_valid[of it ctxact] obtain ctx where d: "deref ctxact it = Some ctx" by auto
  have v: "set its \<subseteq> Node ` fst ` set (filter (\<lambda>node. Node (fst node) \<noteq> it) ctxact)"
  proof
    fix x assume x: "x \<in> set its"
    with Cons.prems have "x \<noteq> it" "x \<in> Node ` fst ` set ctxact" by auto
    then obtain n where "n \<in> set ctxact" "x = Node (fst n)" "Node (fst n) \<noteq> it" by auto
    then show "x \<in> Node ` fst ` set (filter (\<lambda>node. Node (fst node) \<noteq> it) ctxact)"
      by (intro image_eqI[of _ _ "fst n"] image_eqI[of _ _ n]) auto
  qed
  have "filter (\<lambda>node. Node (fst node) \<notin> set its) (filter (\<lambda>node. Node (fst node) \<noteq> it) ctxact)
        = filter (\<lambda>node. Node (fst node) \<notin> set (it # its)) ctxact"
    by (auto intro: filter_cong)
  with Cons.IH[OF v] Cons.prems(2) d show ?case by simp
qed

lemma aligned_restore_and_erase:
  assumes a: "aligned s" and i: "1 \<le> itr" "itr \<le> length (m_pfds s)"
  shows "\<exists>s' sched' tr. restore_and_erase itr (s, sched) = (Inr (s', sched'), Lock # tr @ [Unlock])
           \<and> aligned s' \<and> m_pipe s' = m_pipe s \<and> m_th s' = m_th s
           \<and> m_pfds s' = take itr (m_pfds s) \<and> m_ctxitr s' = take itr (m_ctxitr s)
           \<and> length tr = length (m_pfds s) - itr
           \<and> list_all cause tr \<and> filter notification tr = []"
proof -
  let ?its = "drop itr (m_ctxitr s)"
  from a have len: "length (m_pfds s) = length (m_ctxitr s)" and ne: "m_pfds s \<noteq> []"
    and dk: "distinct (map fst (m_ctxact s))" and di: "distinct (tl (m_ctxitr s))"
    and st: "set (tl (m_ctxitr s)) = Node ` fst ` set (m_ctxact s)"
    and h: "fd (hd (m_pfds s)) = read_end (m_pipe s)" "hd (m_ctxitr s) = Singular"
    by (auto simp: aligned_def)
  obtain j where j: "itr = Suc j" using i(1) by (cases itr) auto
  have its: "?its = drop j (tl (m_ctxitr s))" using j by (simp add: drop_Suc)
  have split: "tl (m_ctxitr s) = take j (tl (m_ctxitr s)) @ ?its" using its by simp
  have v: "set ?its \<subseteq> Node ` fst ` set (m_ctxact s)"
    using st its by (metis set_drop_subset)
  have dd: "distinct ?its" using di its by simp
  from restore_valid[OF v, of sched] obtain sched' ctxact' tr where
    r: "restore sched (m_ctxact s) ?its = Some (sched', ctxact', tr)"
    and keys: "map fst ctxact' = map fst (m_ctxact s)" and ltr: "length tr = length ?its"
    and ca: "list_all cause tr" "filter notification tr = []" by blast
  have v': "set ?its \<subseteq> Node ` fst ` set ctxact'"
    using v keys by (metis set_map)
  note e = erase_all_valid[OF v' dd]
  let ?l = "filter (\<lambda>node. Node (fst node) \<notin> set ?its) ctxact'"
  let ?s' = "s\<lparr>m_ctxact := ?l, m_pfds := take itr (m_pfds s), m_ctxitr := take itr (m_ctxitr s)\<rparr>"
  have res: "restore_and_erase itr (s, sched) = (Inr (?s', sched'), Lock # tr @ [Unlock])"
    using r e by (simp add: restore_and_erase_def)
  have tk: "tl (take itr (m_ctxitr s)) = take j (tl (m_ctxitr s))"
    using j by (simp add: tl_take)
  have disj: "set (take j (tl (m_ctxitr s))) \<inter> set ?its = {}"
    using di split by (metis distinct_append)
  have un: "set (take j (tl (m_ctxitr s))) \<union> set ?its = Node ` fst ` set ctxact'"
    using st split keys by (metis set_append set_map)
  have dl: "distinct (map fst ?l)"
    using dk keys by (simp add: distinct_map_filter)
  have sl: "set (take j (tl (m_ctxitr s))) = Node ` fst ` set ?l"
  proof (intro set_eqI iffI)
    fix x assume x: "x \<in> set (take j (tl (m_ctxitr s)))"
    with un have "x \<in> Node ` fst ` set ctxact'" by blast
    then obtain n where n: "n \<in> set ctxact'" "x = Node (fst n)" by auto
    from x disj have "x \<notin> set ?its" by blast
    with n show "x \<in> Node ` fst ` set ?l"
      by (intro image_eqI[of _ _ "fst n"] image_eqI[of _ _ n]) auto
  next
    fix x assume "x \<in> Node ` fst ` set ?l"
    then obtain n where n: "n \<in> set ctxact'" "x = Node (fst n)" "x \<notin> set ?its" by auto
    then have "x \<in> Node ` fst ` set ctxact'" by blast
    with un n(3) show "x \<in> set (take j (tl (m_ctxitr s)))" by blast
  qed
  have hd1: "hd (take itr (m_pfds s)) = hd (m_pfds s)" "hd (take itr (m_ctxitr s)) = hd (m_ctxitr s)"
    using j ne len by (cases "m_pfds s"; cases "m_ctxitr s"; simp)+
  have al: "aligned ?s'"
    using len ne h di dl sl tk hd1 j by (simp add: aligned_def)
  have "length tr = length (m_pfds s) - itr" using ltr len by simp
  with res al ca show ?thesis by (intro exI[of _ ?s'] exI[of _ sched'] exI[of _ tr]) simp
qed

lemma aligned_poll:
  "aligned s \<Longrightarrow> aligned (s\<lparr>m_pfds := write_revents (m_pfds s) rs\<rparr>)"
  by (simp add: aligned_def write_revents_hd_fd)

lemma aligned_exec_body:
  assumes c: "partition_contract part" and a: "aligned s"
  shows "\<exists>s' sched' tr. exec_body part os (s, sched) = (Inr (s', sched'), tr) \<and> aligned s'
            \<and> m_pipe s' = m_pipe s \<and> m_th s' = m_th s"
proof -
  let ?s1 = "s\<lparr>m_pfds := write_revents (m_pfds s) (os_revents os)\<rparr>"
  have a1: "aligned ?s1" using a by (rule aligned_poll)
  show ?thesis
  proof (cases "snd (poll_result_handling (os_result os) (os_errno os)) = 0 \<and> 0 < os_result os")
    case False
    then show ?thesis using a1
      by (auto simp: exec_body_def poll_fds_def poll_result_handling_def)
  next
    case True
    from aligned_exec_partition[OF c a1] obtain s' k where
      p: "exec_partition part ?s1 = Some (s', Suc k)" and a': "aligned s'"
      and k: "Suc k \<le> length (m_pfds s')" and f: "m_pipe s' = m_pipe ?s1" "m_th s' = m_th ?s1"
      by blast
    show ?thesis
    proof (cases "Suc k = length (m_pfds s')")
      case True
      with \<open>snd (poll_result_handling (os_result os) (os_errno os)) = 0 \<and> 0 < os_result os\<close> p a' f
      show ?thesis
        by (auto simp: exec_body_def poll_fds_def poll_result_handling_def)
    next
      case False
      from aligned_restore_and_erase[OF a' _ k, of sched] obtain s'' sched' tr where
        r: "restore_and_erase (Suc k) (s', sched) = (Inr (s'', sched'), Lock # tr @ [Unlock])"
        and a'': "aligned s''" and f': "m_pipe s'' = m_pipe s'" "m_th s'' = m_th s'" by auto
      with \<open>snd (poll_result_handling (os_result os) (os_errno os)) = 0 \<and> 0 < os_result os\<close> p False f
      show ?thesis
        by (auto simp: exec_body_def poll_fds_def poll_result_handling_def)
    qed
  qed
qed

lemma exec_never_returns:
  assumes c: "partition_contract part" and a: "aligned s"
  shows "exec part env s = None"
proof (rule ccontr)
  assume "exec part env s \<noteq> None"
  then obtain y where y: "exec part env s = Some y" by auto
  have "partition_contract part \<longrightarrow> aligned s \<longrightarrow> False"
  proof (rule exec.raw_induct[where P = "\<lambda>part env s y. partition_contract part \<longrightarrow> aligned s \<longrightarrow> False",
        OF _ y])
    fix f :: "((pollfd \<times> ctxact_iterator \<Rightarrow> bool) \<Rightarrow> (pollfd \<times> ctxact_iterator) list
      \<Rightarrow> (pollfd \<times> ctxact_iterator) list \<times> nat)
      \<Rightarrow> (poll_os \<times> 'a scheduler) stream \<Rightarrow> 'a async_io_thread \<Rightarrow> (error + unit) option"
      and part env s y
    assume ih: "\<And>part env s y. f part env s = Some y \<Longrightarrow> partition_contract part \<longrightarrow> aligned s \<longrightarrow> False"
      and b: "(case fst (exec_body part (fst (shd env)) (s, snd (shd env))) of
                 Inl e \<Rightarrow> Some (Inl e)
               | Inr st \<Rightarrow> f part (stl env) (fst st)) = Some y"
    show "partition_contract part \<longrightarrow> aligned s \<longrightarrow> False"
    proof (intro impI)
      assume c: "partition_contract part" and a: "aligned s"
      from aligned_exec_body[OF c a, of "fst (shd env)" "snd (shd env)"] obtain s' sched' tr where
        e: "exec_body part (fst (shd env)) (s, snd (shd env)) = (Inr (s', sched'), tr)"
        and a': "aligned s'" by blast
      with b have "f part (stl env) s' = Some y" by simp
      from ih[OF this] c a' show False by blast
    qed
  qed
  with c a show False by blast
qed

lemma aligned_ctor: "aligned (async_io_thread_ctor th pipe)"
  by (simp add: aligned_def async_io_thread_ctor_def)

lemma aligned_register:
  assumes "aligned s" and "a \<notin> fst ` set (m_ctxact s)"
  shows "aligned (register_ctx a pfd ctx s)"
proof -
  from assms(1) have ne: "m_pfds s \<noteq> []" "m_ctxitr s \<noteq> []" by (auto simp: aligned_def)
  then have t: "tl (m_ctxitr s @ [Node a]) = tl (m_ctxitr s) @ [Node a]"
    "hd (m_ctxitr s @ [Node a]) = hd (m_ctxitr s)" "hd (m_pfds s @ [pfd]) = hd (m_pfds s)"
    by auto
  show ?thesis
    using assms unfolding aligned_def register_ctx_def
    by (simp add: t) blast
qed

lemma aligned_lengths:
  assumes "aligned s"
  shows "length (m_ctxitr s) = length (m_pfds s)" "Suc (length (m_ctxact s)) = length (m_pfds s)"
proof -
  from assms have len: "length (m_pfds s) = length (m_ctxitr s)" and ne: "m_pfds s \<noteq> []"
    and dk: "distinct (map fst (m_ctxact s))" and di: "distinct (tl (m_ctxitr s))"
    and st: "set (tl (m_ctxitr s)) = Node ` fst ` set (m_ctxact s)"
    by (auto simp: aligned_def)
  show "length (m_ctxitr s) = length (m_pfds s)" using len by simp
  have "distinct (map Node (map fst (m_ctxact s)))"
    using dk by (simp add: distinct_map inj_on_def)
  moreover have "set (map Node (map fst (m_ctxact s))) = set (tl (m_ctxitr s))"
    using st by (simp add: image_image)
  ultimately have "length (map Node (map fst (m_ctxact s))) = length (tl (m_ctxitr s))"
    using di by (metis distinct_card)
  then show "Suc (length (m_ctxact s)) = length (m_pfds s)"
    using len ne by (cases "m_pfds s") auto
qed

lemma zip_partition_length: "length (fst (zip_partition P xs)) = length xs"
proof (induction P xs rule: zip_partition.induct)
  case (1 P)
  show ?case by simp
next
  case (2 P x xs)
  show ?case
  proof (cases "P x")
    case True
    with 2(1) show ?thesis by (cases "zip_partition P xs") simp
  next
    case False
    show ?thesis
    proof (cases "dropWhile (\<lambda>y. \<not> P y) (rev xs)")
      case Nil
      show ?thesis by (simp add: False Nil)
    next
      case (Cons y front)
      have "length (rev xs) = length (takeWhile (\<lambda>y. \<not> P y) (rev xs)) + length (y # front)"
        using Cons by (metis length_append takeWhile_dropWhile_id)
      moreover have "length (fst (zip_partition P (rev front))) = length (rev front)"
        using 2(2)[OF False Cons] .
      ultimately show ?thesis
        by (cases "zip_partition P (rev front)") (simp add: False Cons)
    qed
  qed
qed

lemma zip_partition_bound: "snd (zip_partition P xs) \<le> length xs"
proof (induction P xs rule: zip_partition.induct)
  case (1 P)
  show ?case by simp
next
  case (2 P x xs)
  show ?case
  proof (cases "P x")
    case True
    with 2(1) show ?thesis by (cases "zip_partition P xs") simp
  next
    case False
    show ?thesis
    proof (cases "dropWhile (\<lambda>y. \<not> P y) (rev xs)")
      case Nil
      show ?thesis by (simp add: False Nil)
    next
      case (Cons y front)
      have "length (y # front) \<le> length (rev xs)"
        using Cons by (metis length_dropWhile_le)
      moreover have "snd (zip_partition P (rev front)) \<le> length (rev front)"
        using 2(2)[OF False Cons] .
      ultimately show ?thesis
        by (cases "zip_partition P (rev front)") (simp add: False Cons)
    qed
  qed
qed

lemma zip_partition_set: "set (fst (zip_partition P xs)) \<subseteq> set xs"
proof (induction P xs rule: zip_partition.induct)
  case (1 P)
  show ?case by simp
next
  case (2 P x xs)
  show ?case
  proof (cases "P x")
    case True
    with 2(1) show ?thesis by (cases "zip_partition P xs") auto
  next
    case False
    show ?thesis
    proof (cases "dropWhile (\<lambda>y. \<not> P y) (rev xs)")
      case Nil
      show ?thesis by (simp add: False Nil)
    next
      case (Cons y front)
      have s: "set (rev xs) = set (takeWhile (\<lambda>y. \<not> P y) (rev xs)) \<union> set (y # front)"
        using Cons by (metis set_append takeWhile_dropWhile_id)
      have ih: "set (fst (zip_partition P (rev front))) \<subseteq> set (rev front)"
        using 2(2)[OF False Cons] .
      have "set (fst (zip_partition P (x # xs)))
              = insert y (set (fst (zip_partition P (rev front)))
                  \<union> set (takeWhile (\<lambda>y. \<not> P y) (rev xs)))"
        by (cases "zip_partition P (rev front)") (simp add: False Cons)
      also have "\<dots> \<subseteq> set (rev xs)" using ih s by auto
      finally show ?thesis by auto
    qed
  qed
qed

lemma zip_partition_in_order:
  "in_partition_order P xs \<Longrightarrow> zip_partition P xs = (xs, length (takeWhile P xs))"
proof (induction xs)
  case Nil
  show ?case by simp
next
  case (Cons x xs)
  show ?case
  proof (cases "P x")
    case True
    with Cons.prems have "in_partition_order P xs" by (simp add: in_partition_order_def)
    from Cons.IH[OF this] True show ?thesis by simp
  next
    case False
    with Cons.prems have "\<forall>y \<in> set xs. \<not> P y" by (simp add: in_partition_order_def list_all_iff)
    then have d: "dropWhile (\<lambda>y. \<not> P y) (rev xs) = []"
      by (simp add: dropWhile_eq_Nil_conv)
    show ?thesis by (simp add: False d)
  qed
qed

lemma exec_partition_zip:
  assumes a: "aligned s"
  shows "\<exists>s' k. exec_partition zip_partition s = Some (s', k) \<and> 1 \<le> k \<and> k \<le> length (m_pfds s')
           \<and> length (m_pfds s') = length (m_pfds s)
           \<and> length (m_ctxitr s') = length (m_pfds s')
           \<and> hd (m_pfds s') = hd (m_pfds s) \<and> hd (m_ctxitr s') = Singular
           \<and> m_ctxact s' = m_ctxact s
           \<and> set (zip (tl (m_pfds s')) (tl (m_ctxitr s')))
                \<subseteq> set (zip (tl (m_pfds s)) (tl (m_ctxitr s)))"
proof -
  let ?xs = "zip (tl (m_pfds s)) (tl (m_ctxitr s))"
  obtain zs k where p: "zip_partition check_event ?xs = (zs, k)"
    by (cases "zip_partition check_event ?xs") auto
  from a have len: "length (m_pfds s) = length (m_ctxitr s)" and ne: "m_pfds s \<noteq> []"
    and h: "hd (m_ctxitr s) = Singular"
    by (auto simp: aligned_def)
  have lx: "length ?xs = length (m_pfds s) - 1" using len by simp
  have lz: "length zs = length (m_pfds s) - 1"
    using zip_partition_length[of check_event ?xs] p lx by simp
  have kb: "k \<le> length (m_pfds s) - 1"
    using zip_partition_bound[of check_event ?xs] p lx by simp
  have sub: "set zs \<subseteq> set ?xs" using zip_partition_set[of check_event ?xs] p by simp
  let ?s' = "s\<lparr>m_pfds := hd (m_pfds s) # map fst zs, m_ctxitr := hd (m_ctxitr s) # map snd zs\<rparr>"
  have e: "exec_partition zip_partition s = Some (?s', Suc k)"
    using len ne p by (simp add: exec_partition_def)
  have z: "zip (map fst zs) (map snd zs) = zs" by (simp add: zip_map_fst_snd)
  have l1: "length (m_pfds ?s') = length (m_pfds s)" using lz ne by (cases "m_pfds s") simp_all
  have pos: "0 < length (m_pfds s)" using ne by simp
  have kb': "Suc k \<le> length (m_pfds s)" using kb pos by linarith
  show ?thesis
    using e l1 lz kb' h sub z by (intro exI[of _ ?s'] exI[of _ "Suc k"]) simp
qed

lemma exec_partition_zip_in_order:
  assumes a: "aligned s"
    and o: "in_partition_order check_event (zip (tl (m_pfds s)) (tl (m_ctxitr s)))"
  shows "exec_partition zip_partition s
           = Some (s, Suc (length (takeWhile check_event (zip (tl (m_pfds s)) (tl (m_ctxitr s))))))"
proof -
  let ?xs = "zip (tl (m_pfds s)) (tl (m_ctxitr s))"
  from a have len: "length (m_pfds s) = length (m_ctxitr s)" and ne: "m_pfds s \<noteq> []"
    by (auto simp: aligned_def)
  then have ne': "m_ctxitr s \<noteq> []" by auto
  have lt: "length (tl (m_pfds s)) = length (tl (m_ctxitr s))" using len by simp
  have f: "hd (m_pfds s) # map fst ?xs = m_pfds s" using ne map_fst_zip[OF lt] by simp
  have g: "hd (m_ctxitr s) # map snd ?xs = m_ctxitr s" using ne' map_snd_zip[OF lt] by simp
  show ?thesis
    using len ne zip_partition_in_order[OF o]
    by (simp add: exec_partition_def f g del: map_fst_zip map_snd_zip)
qed

lemma aligned_exec_body_in_order:
  assumes a: "aligned s"
    and o: "in_partition_order check_event
              (zip (tl (write_revents (m_pfds s) (os_revents os))) (tl (m_ctxitr s)))"
  shows "\<exists>s' sched' tr. exec_body zip_partition os (s, sched) = (Inr (s', sched'), tr) \<and> aligned s'"
proof -
  let ?s1 = "s\<lparr>m_pfds := write_revents (m_pfds s) (os_revents os)\<rparr>"
  let ?k = "length (takeWhile check_event (zip (tl (m_pfds ?s1)) (tl (m_ctxitr ?s1))))"
  have a1: "aligned ?s1" using a by (rule aligned_poll)
  have o1: "in_partition_order check_event (zip (tl (m_pfds ?s1)) (tl (m_ctxitr ?s1)))"
    using o by simp
  note p = exec_partition_zip_in_order[OF a1 o1]
  from a1 have len: "length (m_pfds ?s1) = length (m_ctxitr ?s1)" and ne: "m_pfds ?s1 \<noteq> []"
    by (auto simp: aligned_def)
  have "?k \<le> length (zip (tl (m_pfds ?s1)) (tl (m_ctxitr ?s1)))"
    by (rule length_takeWhile_le)
  then have k: "Suc ?k \<le> length (m_pfds ?s1)" using len ne by (cases "m_pfds ?s1") auto
  show ?thesis
  proof (cases "snd (poll_result_handling (os_result os) (os_errno os)) = 0 \<and> 0 < os_result os")
    case False
    then show ?thesis using a1
      by (auto simp: exec_body_def poll_fds_def poll_result_handling_def)
  next
    case True
    show ?thesis
    proof (cases "Suc ?k = length (m_pfds ?s1)")
      case eq: True
      with True p a1 show ?thesis
        by (auto simp: exec_body_def poll_fds_def poll_result_handling_def)
    next
      case neq: False
      from aligned_restore_and_erase[OF a1 _ k, of sched] obtain s'' sched' tr where
        r: "restore_and_erase (Suc ?k) (?s1, sched) = (Inr (s'', sched'), Lock # tr @ [Unlock])"
        and a'': "aligned s''" by auto
      with True p neq show ?thesis
        by (auto simp: exec_body_def poll_fds_def poll_result_handling_def)
    qed
  qed
qed

text \<open>
  C8 as it is written fails in two places. At construction the constructor puts the read
  end of the pipe into the descriptor vector and a singular iterator into the iterator
  vector, and leaves the list of parked contexts empty. And after a partition that has to
  exchange two entries: with contexts parked on descriptors 5 and 6 and only descriptor 6
  ready, the exchange writes the pair of descriptor 6 over the pair of descriptor 5; the
  turn then pushes and erases the context of node 11 and leaves, at index 1, an iterator
  to the erased node 11, while node 10 stays in the list with no iterator to it.
\<close>

theorem structures_not_equal_length:
  "\<not> equal_length (async_io_thread_ctor (Thread 1)
        \<lparr>read_end = 3, write_end = 4, read_closed = False\<rparr> :: unit async_io_thread)
   \<and> length (m_pfds (async_io_thread_ctor (Thread 1)
        \<lparr>read_end = 3, write_end = 4, read_closed = False\<rparr> :: unit async_io_thread)) = 1
   \<and> length (m_ctxitr (async_io_thread_ctor (Thread 1)
        \<lparr>read_end = 3, write_end = 4, read_closed = False\<rparr> :: unit async_io_thread)) = 1
   \<and> length (m_ctxact (async_io_thread_ctor (Thread 1)
        \<lparr>read_end = 3, write_end = 4, read_closed = False\<rparr> :: unit async_io_thread)) = 0
   \<and> exec_body zip_partition \<lparr>os_result = 1, os_errno = 0, os_revents = [0, 0, 4]\<rparr>
       (\<lparr>m_th = Thread 1,
         m_ctxact = [(10, Suspended 0 [Act (1::nat)]), (11, Suspended 0 [Act 2])],
         m_ctxitr = [Singular, Node 10, Node 11],
         m_pfds = [\<lparr>fd = 3, events = 1, revents = 0\<rparr>, \<lparr>fd = 5, events = 1, revents = 0\<rparr>,
                   \<lparr>fd = 6, events = 1, revents = 0\<rparr>],
         m_pipe = \<lparr>read_end = 3, write_end = 4, read_closed = False\<rparr>\<rparr>,
        \<lparr>m_terminate = False, m_join = False, m_kernels = [(2, Thread 2)], m_users = []\<rparr>)
     = (Inr (\<lparr>m_th = Thread 1,
              m_ctxact = [(10, Suspended 0 [Act 1])],
              m_ctxitr = [Singular, Node 11],
              m_pfds = [\<lparr>fd = 3, events = 1, revents = 0\<rparr>, \<lparr>fd = 6, events = 1, revents = 4\<rparr>],
              m_pipe = \<lparr>read_end = 3, write_end = 4, read_closed = False\<rparr>\<rparr>,
             \<lparr>m_terminate = False, m_join = False, m_kernels = [(2, Thread 2)],
              m_users = [Suspended 0 [Act 2]]\<rparr>),
        [Lock, Push_ctx (Suspended 0 [Act 2]), Unlock])
   \<and> deref [(10, Suspended 0 [Act (1::nat)])] (Node 11) = None"
  by (simp add: equal_length_def async_io_thread_ctor_def
      exec_body_def poll_fds_def poll_result_handling_def exec_partition_def
      check_event_def restore_and_erase_def push_ctx_def)

text \<open>
  C8, as the code has it. The state meant is: the descriptor vector and the iterator
  vector have the same length; the list of parked contexts has one element less, and the
  iterators behind the first designate its nodes, each node once; the first descriptor
  record is the read end of the pipe and the first iterator is the singular one, which
  designates nothing. The constructor leaves this state. Registration keeps it, and so
  does \<^verbatim>\<open>restore_and_erase\<close> on a range that starts behind the first element, which
  cuts both vectors at the same position and dereferences and erases only through
  iterators that designate a node. The partition, as the program makes the call,
  always leaves the first record and the singular iterator in place, both vectors as long
  as they were and the list untouched; when it has nothing to exchange it changes
  nothing, and the whole turn of the loop then keeps the state. What an exchange does to
  the iterators is not part of this statement.
\<close>

theorem reactor_structures_aligned:
  "aligned (async_io_thread_ctor th pipe :: 'a async_io_thread)
   \<and> (aligned s \<longrightarrow>
         length (m_ctxitr s) = length (m_pfds s) \<and> Suc (length (m_ctxact s)) = length (m_pfds s)
       \<and> fd (hd (m_pfds s)) = read_end (m_pipe s) \<and> hd (m_ctxitr s) = Singular
       \<and> deref (m_ctxact s) (hd (m_ctxitr s)) = None)
   \<and> (aligned s \<and> a \<notin> fst ` set (m_ctxact s) \<longrightarrow> aligned (register_ctx a pfd ctx s))
   \<and> (aligned s \<and> 1 \<le> itr \<and> itr \<le> length (m_pfds s) \<longrightarrow>
         (\<exists>s' sched' tr. restore_and_erase itr (s, sched) = (Inr (s', sched'), tr) \<and> aligned s'
              \<and> m_pfds s' = take itr (m_pfds s) \<and> m_ctxitr s' = take itr (m_ctxitr s)))
   \<and> (aligned s \<longrightarrow>
         (\<exists>s' k. exec_partition zip_partition s = Some (s', k) \<and> 1 \<le> k \<and> k \<le> length (m_pfds s')
              \<and> length (m_pfds s') = length (m_pfds s)
              \<and> length (m_ctxitr s') = length (m_pfds s')
              \<and> hd (m_pfds s') = hd (m_pfds s) \<and> hd (m_ctxitr s') = Singular
              \<and> m_ctxact s' = m_ctxact s))
   \<and> (aligned s \<and> in_partition_order check_event (zip (tl (m_pfds s)) (tl (m_ctxitr s))) \<longrightarrow>
         (\<exists>k. exec_partition zip_partition s = Some (s, k)))
   \<and> (aligned s \<and> in_partition_order check_event
           (zip (tl (write_revents (m_pfds s) (os_revents os))) (tl (m_ctxitr s))) \<longrightarrow>
         (\<exists>s' sched' tr. exec_body zip_partition os (s, sched) = (Inr (s', sched'), tr)
              \<and> aligned s'))"
proof (intro conjI impI)
  show "aligned (async_io_thread_ctor th pipe :: 'a async_io_thread)" by (rule aligned_ctor)
next
  assume a: "aligned s"
  show "length (m_ctxitr s) = length (m_pfds s)" using aligned_lengths(1)[OF a] .
  show "Suc (length (m_ctxact s)) = length (m_pfds s)" using aligned_lengths(2)[OF a] .
  show "fd (hd (m_pfds s)) = read_end (m_pipe s)" using a by (simp add: aligned_def)
  show h: "hd (m_ctxitr s) = Singular" using a by (simp add: aligned_def)
  show "deref (m_ctxact s) (hd (m_ctxitr s)) = None" using h by simp
next
  assume "aligned s \<and> a \<notin> fst ` set (m_ctxact s)"
  then show "aligned (register_ctx a pfd ctx s)" using aligned_register by blast
next
  assume "aligned s \<and> 1 \<le> itr \<and> itr \<le> length (m_pfds s)"
  with aligned_restore_and_erase[of s itr sched]
  show "\<exists>s' sched' tr. restore_and_erase itr (s, sched) = (Inr (s', sched'), tr) \<and> aligned s'
              \<and> m_pfds s' = take itr (m_pfds s) \<and> m_ctxitr s' = take itr (m_ctxitr s)"
    by blast
next
  assume "aligned s"
  from exec_partition_zip[OF this]
  show "\<exists>s' k. exec_partition zip_partition s = Some (s', k) \<and> 1 \<le> k \<and> k \<le> length (m_pfds s')
              \<and> length (m_pfds s') = length (m_pfds s)
              \<and> length (m_ctxitr s') = length (m_pfds s')
              \<and> hd (m_pfds s') = hd (m_pfds s) \<and> hd (m_ctxitr s') = Singular
              \<and> m_ctxact s' = m_ctxact s"
    by blast
next
  assume "aligned s \<and> in_partition_order check_event (zip (tl (m_pfds s)) (tl (m_ctxitr s)))"
  with exec_partition_zip_in_order[of s]
  show "\<exists>k. exec_partition zip_partition s = Some (s, k)" by blast
next
  assume "aligned s \<and> in_partition_order check_event
           (zip (tl (write_revents (m_pfds s) (os_revents os))) (tl (m_ctxitr s)))"
  with aligned_exec_body_in_order[of s os sched]
  show "\<exists>s' sched' tr. exec_body zip_partition os (s, sched) = (Inr (s', sched'), tr)
              \<and> aligned s'"
    by blast
qed

theorem reactor_structures_aligned_witness:
  "aligned \<lparr>m_th = Thread 1,
       m_ctxact = [(10, Suspended 0 [Act (1::nat)]), (11, Suspended 0 [Act 2])],
       m_ctxitr = [Singular, Node 10, Node 11],
       m_pfds = [\<lparr>fd = 3, events = 1, revents = 0\<rparr>, \<lparr>fd = 5, events = 1, revents = 0\<rparr>,
                 \<lparr>fd = 6, events = 1, revents = 0\<rparr>],
       m_pipe = \<lparr>read_end = 3, write_end = 4, read_closed = False\<rparr>\<rparr>
   \<and> in_partition_order check_event
        [(\<lparr>fd = 5, events = 1, revents = 4\<rparr>, Node 10), (\<lparr>fd = 6, events = 1, revents = 0\<rparr>, Node 11)]
   \<and> exec_body zip_partition \<lparr>os_result = 1, os_errno = 0, os_revents = [0, 4, 0]\<rparr>
       (\<lparr>m_th = Thread 1,
         m_ctxact = [(10, Suspended 0 [Act (1::nat)]), (11, Suspended 0 [Act 2])],
         m_ctxitr = [Singular, Node 10, Node 11],
         m_pfds = [\<lparr>fd = 3, events = 1, revents = 0\<rparr>, \<lparr>fd = 5, events = 1, revents = 0\<rparr>,
                   \<lparr>fd = 6, events = 1, revents = 0\<rparr>],
         m_pipe = \<lparr>read_end = 3, write_end = 4, read_closed = False\<rparr>\<rparr>,
        \<lparr>m_terminate = False, m_join = False, m_kernels = [(2, Thread 2)], m_users = []\<rparr>)
     = (Inr (\<lparr>m_th = Thread 1,
              m_ctxact = [(10, Suspended 0 [Act 1])],
              m_ctxitr = [Singular, Node 10],
              m_pfds = [\<lparr>fd = 3, events = 1, revents = 0\<rparr>, \<lparr>fd = 5, events = 1, revents = 4\<rparr>],
              m_pipe = \<lparr>read_end = 3, write_end = 4, read_closed = False\<rparr>\<rparr>,
             \<lparr>m_terminate = False, m_join = False, m_kernels = [(2, Thread 2)],
              m_users = [Suspended 0 [Act 2]]\<rparr>),
        [Lock, Push_ctx (Suspended 0 [Act 2]), Unlock])
   \<and> aligned \<lparr>m_th = Thread 1,
              m_ctxact = [(10, Suspended 0 [Act (1::nat)])],
              m_ctxitr = [Singular, Node 10],
              m_pfds = [\<lparr>fd = 3, events = 1, revents = 0\<rparr>, \<lparr>fd = 5, events = 1, revents = 4\<rparr>],
              m_pipe = \<lparr>read_end = 3, write_end = 4, read_closed = False\<rparr>\<rparr>
   \<and> aligned (register_ctx 12 \<lparr>fd = 7, events = 4, revents = 0\<rparr> (Suspended 0 [])
        \<lparr>m_th = Thread 1,
         m_ctxact = [(10, Suspended 0 [Act (1::nat)]), (11, Suspended 0 [Act 2])],
         m_ctxitr = [Singular, Node 10, Node 11],
         m_pfds = [\<lparr>fd = 3, events = 1, revents = 0\<rparr>, \<lparr>fd = 5, events = 1, revents = 0\<rparr>,
                   \<lparr>fd = 6, events = 1, revents = 0\<rparr>],
         m_pipe = \<lparr>read_end = 3, write_end = 4, read_closed = False\<rparr>\<rparr>)"
proof -
  let ?s = "\<lparr>m_th = Thread 1,
       m_ctxact = [(10, Suspended 0 [Act (1::nat)]), (11, Suspended 0 [Act 2])],
       m_ctxitr = [Singular, Node 10, Node 11],
       m_pfds = [\<lparr>fd = 3, events = 1, revents = 0\<rparr>, \<lparr>fd = 5, events = 1, revents = 0\<rparr>,
                 \<lparr>fd = 6, events = 1, revents = 0\<rparr>],
       m_pipe = \<lparr>read_end = 3, write_end = 4, read_closed = False\<rparr>\<rparr>"
  let ?s' = "\<lparr>m_th = Thread 1,
              m_ctxact = [(10, Suspended 0 [Act (1::nat)])],
              m_ctxitr = [Singular, Node 10],
              m_pfds = [\<lparr>fd = 3, events = 1, revents = 0\<rparr>, \<lparr>fd = 5, events = 1, revents = 4\<rparr>],
              m_pipe = \<lparr>read_end = 3, write_end = 4, read_closed = False\<rparr>\<rparr>"
  let ?os = "\<lparr>os_result = 1, os_errno = 0, os_revents = [0, 4, 0]\<rparr>"
  let ?sched = "\<lparr>m_terminate = False, m_join = False, m_kernels = [(2, Thread 2)],
                  m_users = ([] :: nat context_type list)\<rparr>"
  let ?range = "[(\<lparr>fd = 5, events = 1, revents = 4\<rparr>, Node 10),
                 (\<lparr>fd = 6, events = 1, revents = 0\<rparr>, Node 11)]"
  have a: "aligned ?s" by (simp add: aligned_def)
  have f: "12 \<notin> fst ` set (m_ctxact ?s)" by simp
  have o: "in_partition_order check_event ?range"
    by (simp add: in_partition_order_def check_event_def)
  have o': "in_partition_order check_event
              (zip (tl (write_revents (m_pfds ?s) (os_revents ?os))) (tl (m_ctxitr ?s)))"
    using o by simp
  have e: "exec_body zip_partition ?os (?s, ?sched)
     = (Inr (?s', ?sched\<lparr>m_users := [Suspended 0 [Act 2]]\<rparr>),
        [Lock, Push_ctx (Suspended 0 [Act 2]), Unlock])"
    by (simp add: exec_body_def poll_fds_def poll_result_handling_def exec_partition_def
        check_event_def restore_and_erase_def push_ctx_def)
  note inst = reactor_structures_aligned
    [of "Thread 1" "\<lparr>read_end = 3, write_end = 4, read_closed = False\<rparr>" ?s 12
        "\<lparr>fd = 7, events = 4, revents = 0\<rparr>" "Suspended 0 []" 2 ?sched ?os]
  from inst a o'
  have "\<exists>s' sched' tr. exec_body zip_partition ?os (?s, ?sched) = (Inr (s', sched'), tr) \<and> aligned s'"
    by blast
  with e have a': "aligned ?s'" by simp
  from inst a f
  have "aligned (register_ctx 12 \<lparr>fd = 7, events = 4, revents = 0\<rparr> (Suspended 0 []) ?s)"
    by blast
  with a a' e o show ?thesis by simp
qed

subsection \<open>The reactor: shutdown\<close>

text \<open>
  C3 fails on the code: \<^verbatim>\<open>exec\<close> is a \<^verbatim>\<open>while (true)\<close> without any exit. Whatever the
  polls report after the destructor has closed the read end of the pipe, the loop of a
  freshly constructed reactor never returns, so the join in the destructor never returns.
\<close>

theorem async_io_thread_dtor_never_returns:
  "async_io_thread_dtor partition_in_order env (async_io_thread_ctor th pipe) = None"
proof -
  have "aligned ((async_io_thread_ctor th pipe :: 'a async_io_thread)
                  \<lparr>m_pipe := (m_pipe (async_io_thread_ctor th pipe :: 'a async_io_thread))\<lparr>read_closed := True\<rparr>\<rparr>)"
    by (simp add: aligned_def async_io_thread_ctor_def)
  from exec_never_returns[OF partition_contract_in_order this]
  show ?thesis by (simp add: async_io_thread_dtor_def)
qed

subsection \<open>The reactor: which contexts a turn hands back\<close>

lemma partition_contract_pair:
  assumes c: "partition_contract part" and a: "P a" and b: "\<not> P b"
  shows "part P [a, b] = ([a, b], 1)"
proof -
  obtain zs k where p: "part P [a, b] = (zs, k)" by (cases "part P [a, b]") auto
  note d = partition_contractD[OF c p]
  from d(1) have "length zs = 2" by (metis length_Cons list.size(3) mset_eq_length numeral_2_eq_2)
  then obtain x y where zs: "zs = [x, y]"
    by (metis (no_types, opaque_lifting) One_nat_def Suc_1 Suc_length_conv length_0_conv)
  from d(1) zs have xy: "(x = a \<and> y = b) \<or> (x = b \<and> y = a)"
    by (auto simp: add_eq_conv_ex)
  have k2: "k \<le> 2" using d(2) by simp
  then consider "k = 0" | "k = 1" | "k = 2" by linarith
  then have "k = 1 \<and> x = a \<and> y = b"
  proof cases
    case 1
    with d(4) zs have "\<not> P x" "\<not> P y" by auto
    with xy a show ?thesis by auto
  next
    case 2
    with d(3) d(4) zs have "P x" "\<not> P y" by auto
    with xy a b 2 show ?thesis by auto
  next
    case 3
    with d(3) zs have "P x" "P y" by auto
    with xy b show ?thesis by auto
  qed
  with p zs show ?thesis by simp
qed

lemma length_filter_mset_cong:
  "mset xs = mset ys \<Longrightarrow> length (filter Q xs) = length (filter Q ys)"
  by (metis mset_filter size_mset)

lemma filter_take_drop_count:
  assumes "\<forall>x \<in> set (take k xs). \<not> Q x" and "\<forall>x \<in> set (drop k xs). Q x"
  shows "length (filter Q xs) = length xs - k"
proof -
  have "filter Q xs = filter Q (take k xs) @ filter Q (drop k xs)"
    by (metis append_take_drop_id filter_append)
  also have "filter Q (take k xs) = []" using assms(1) by (simp add: filter_empty_conv)
  also have "filter Q (drop k xs) = drop k xs" using assms(2) by (simp add: filter_id_conv)
  finally show ?thesis by simp
qed

lemma exec_body_keeps_ready_entries:
  assumes c: "partition_contract part" and a: "aligned s"
    and ok: "0 < os_result os"
  shows "\<exists>s' sched' tr. exec_body part os (s, sched) = (Inr (s', sched'), tr)
           \<and> (\<forall>p \<in> set (tl (m_pfds s')). revents p \<noteq> 0)
           \<and> length (filter cause tr)
               = length (filter (\<lambda>p. revents p = 0) (tl (write_revents (m_pfds s) (os_revents os))))
           \<and> filter notification tr = []"
proof -
  let ?s1 = "s\<lparr>m_pfds := write_revents (m_pfds s) (os_revents os)\<rparr>"
  have a1: "aligned ?s1" using a by (rule aligned_poll)
  from ok have ph: "poll_result_handling (os_result os) (os_errno os) = (os_result os, 0)"
    by (simp add: poll_result_handling_def)
  from aligned_exec_partition[OF c a1] obtain s' k where
    p: "exec_partition part ?s1 = Some (s', Suc k)" and a': "aligned s'"
    and k: "Suc k \<le> length (m_pfds s')"
    and l: "length (m_pfds s') = length (m_pfds ?s1)"
    and m: "mset (zip (tl (m_pfds s')) (tl (m_ctxitr s'))) = mset (zip (tl (m_pfds ?s1)) (tl (m_ctxitr ?s1)))"
    and r1: "\<forall>p \<in> set (take k (tl (m_pfds s'))). revents p \<noteq> 0"
    and r2: "\<forall>p \<in> set (drop (Suc k) (m_pfds s')). revents p = 0"
    by blast
  from a' a1 have len: "length (tl (m_pfds s')) = length (tl (m_ctxitr s'))"
    "length (tl (m_pfds ?s1)) = length (tl (m_ctxitr ?s1))" "m_pfds s' \<noteq> []"
    by (auto simp: aligned_def)
  have "mset (map fst (zip (tl (m_pfds s')) (tl (m_ctxitr s'))))
      = mset (map fst (zip (tl (m_pfds ?s1)) (tl (m_ctxitr ?s1))))"
    using m by (metis mset_map)
  moreover have "map fst (zip (tl (m_pfds s')) (tl (m_ctxitr s'))) = tl (m_pfds s')"
    using len(1) by (rule map_fst_zip)
  moreover have "map fst (zip (tl (m_pfds ?s1)) (tl (m_ctxitr ?s1))) = tl (m_pfds ?s1)"
    using len(2) by (rule map_fst_zip)
  ultimately have mp: "mset (tl (m_pfds s')) = mset (tl (m_pfds ?s1))"
    by metis
  have r2': "\<forall>p \<in> set (drop k (tl (m_pfds s'))). revents p = 0"
    using r2 by (simp add: drop_Suc)
  have cnt: "length (filter (\<lambda>p. revents p = 0) (tl (m_pfds s'))) = length (tl (m_pfds s')) - k"
    using r1 r2' by (intro filter_take_drop_count) auto
  have cnt1: "length (filter (\<lambda>p. revents p = 0) (tl (write_revents (m_pfds s) (os_revents os))))
                = length (m_pfds s') - Suc k"
    using length_filter_mset_cong[OF mp, of "\<lambda>p. revents p = 0"] cnt by simp
  show ?thesis
  proof (cases "Suc k = length (m_pfds s')")
    case True
    then have "take k (tl (m_pfds s')) = tl (m_pfds s')" by simp
    with r1 have "\<forall>p \<in> set (tl (m_pfds s')). revents p \<noteq> 0" by simp
    with True p ph cnt1 ok show ?thesis
      by (simp add: exec_body_def poll_fds_def)
  next
    case False
    from aligned_restore_and_erase[OF a' _ k, of sched] obtain s'' sched' tr where
      r: "restore_and_erase (Suc k) (s', sched) = (Inr (s'', sched'), Lock # tr @ [Unlock])"
      and f: "m_pfds s'' = take (Suc k) (m_pfds s')" "length tr = length (m_pfds s') - Suc k"
      "list_all cause tr" "filter notification tr = []" by auto
    have "tl (m_pfds s'') = take k (tl (m_pfds s'))" using f(1) by (simp add: tl_take)
    with r1 have keep: "\<forall>p \<in> set (tl (m_pfds s'')). revents p \<noteq> 0" by simp
    have "filter cause tr = tr" using f(3) by (simp add: filter_id_conv list_all_iff)
    then have "length (filter cause (Lock # tr @ [Unlock])) = length (m_pfds s') - Suc k"
      using f(2) by simp
    with r False p ph cnt1 ok keep f(4) show ?thesis
      by (simp add: exec_body_def poll_fds_def)
  qed
qed

text \<open>
  C1 fails on the code. Two contexts are parked, the first on descriptor 5 and the second
  on descriptor 6; the poll reports descriptor 5 ready and descriptor 6 not. Whatever
  function the standard library's partition is, the turn of the loop pushes the context
  parked on descriptor 6, which is not ready, into the runnable pool and erases its entry,
  and it keeps the ready entry of descriptor 5 parked. In general, after a turn whose
  poll gave a positive result, every entry left behind the first one is a ready one, the
  number of contexts pushed is the number of entries that were not ready, and the
  condition variable has not been notified.
\<close>

theorem exec_body_restores_not_ready:
  assumes "partition_contract part"
  shows "exec_body part \<lparr>os_result = 1, os_errno = 0, os_revents = [0, 1, 0]\<rparr>
     (\<lparr>m_th = Thread 1,
       m_ctxact = [(10, Suspended 0 [Act (1::nat)]), (11, Suspended 0 [Act 2])],
       m_ctxitr = [Singular, Node 10, Node 11],
       m_pfds = [\<lparr>fd = 3, events = 1, revents = 0\<rparr>, \<lparr>fd = 5, events = 1, revents = 0\<rparr>,
                 \<lparr>fd = 6, events = 1, revents = 0\<rparr>],
       m_pipe = \<lparr>read_end = 3, write_end = 4, read_closed = False\<rparr>\<rparr>,
      \<lparr>m_terminate = False, m_join = False, m_kernels = [(2, Thread 2)], m_users = []\<rparr>)
   = (Inr (\<lparr>m_th = Thread 1,
            m_ctxact = [(10, Suspended 0 [Act 1])],
            m_ctxitr = [Singular, Node 10],
            m_pfds = [\<lparr>fd = 3, events = 1, revents = 0\<rparr>, \<lparr>fd = 5, events = 1, revents = 1\<rparr>],
            m_pipe = \<lparr>read_end = 3, write_end = 4, read_closed = False\<rparr>\<rparr>,
           \<lparr>m_terminate = False, m_join = False, m_kernels = [(2, Thread 2)],
            m_users = [Suspended 0 [Act 2]]\<rparr>),
      [Lock, Push_ctx (Suspended 0 [Act 2]), Unlock])
   \<and> (aligned s \<and> 0 < os_result os \<longrightarrow>
        (\<exists>s' sched' tr. exec_body part os (s, sched) = (Inr (s', sched'), tr)
           \<and> (\<forall>p \<in> set (tl (m_pfds s')). revents p \<noteq> 0)
           \<and> length (filter cause tr)
               = length (filter (\<lambda>p. revents p = 0) (tl (write_revents (m_pfds s) (os_revents os))))
           \<and> filter notification tr = []))"
proof (intro conjI impI)
  have p: "part check_event [(\<lparr>fd = 5, events = 1, revents = 1\<rparr>, Node 10),
                             (\<lparr>fd = 6, events = 1, revents = 0\<rparr>, Node 11)]
      = ([(\<lparr>fd = 5, events = 1, revents = 1\<rparr>, Node 10),
          (\<lparr>fd = 6, events = 1, revents = 0\<rparr>, Node 11)], 1)"
    by (rule partition_contract_pair[OF assms]) (simp_all add: check_event_def)
  show "exec_body part \<lparr>os_result = 1, os_errno = 0, os_revents = [0, 1, 0]\<rparr>
     (\<lparr>m_th = Thread 1,
       m_ctxact = [(10, Suspended 0 [Act (1::nat)]), (11, Suspended 0 [Act 2])],
       m_ctxitr = [Singular, Node 10, Node 11],
       m_pfds = [\<lparr>fd = 3, events = 1, revents = 0\<rparr>, \<lparr>fd = 5, events = 1, revents = 0\<rparr>,
                 \<lparr>fd = 6, events = 1, revents = 0\<rparr>],
       m_pipe = \<lparr>read_end = 3, write_end = 4, read_closed = False\<rparr>\<rparr>,
      \<lparr>m_terminate = False, m_join = False, m_kernels = [(2, Thread 2)], m_users = []\<rparr>)
   = (Inr (\<lparr>m_th = Thread 1,
            m_ctxact = [(10, Suspended 0 [Act 1])],
            m_ctxitr = [Singular, Node 10],
            m_pfds = [\<lparr>fd = 3, events = 1, revents = 0\<rparr>, \<lparr>fd = 5, events = 1, revents = 1\<rparr>],
            m_pipe = \<lparr>read_end = 3, write_end = 4, read_closed = False\<rparr>\<rparr>,
           \<lparr>m_terminate = False, m_join = False, m_kernels = [(2, Thread 2)],
            m_users = [Suspended 0 [Act 2]]\<rparr>),
      [Lock, Push_ctx (Suspended 0 [Act 2]), Unlock])"
    by (simp add: exec_body_def poll_fds_def poll_result_handling_def exec_partition_def p
        restore_and_erase_def push_ctx_def)
next
  assume "aligned s \<and> 0 < os_result os"
  with exec_body_keeps_ready_entries[OF assms, of s os sched]
  show "\<exists>s' sched' tr. exec_body part os (s, sched) = (Inr (s', sched'), tr)
           \<and> (\<forall>p \<in> set (tl (m_pfds s')). revents p \<noteq> 0)
           \<and> length (filter cause tr)
               = length (filter (\<lambda>p. revents p = 0) (tl (write_revents (m_pfds s) (os_revents os))))
           \<and> filter notification tr = []"
    by blast
qed

theorem exec_body_restores_not_ready_witness:
  "exec_body partition_in_order \<lparr>os_result = 1, os_errno = 0, os_revents = [0, 1, 0]\<rparr>
     (\<lparr>m_th = Thread 1,
       m_ctxact = [(10, Suspended 0 [Act (1::nat)]), (11, Suspended 0 [Act 2])],
       m_ctxitr = [Singular, Node 10, Node 11],
       m_pfds = [\<lparr>fd = 3, events = 1, revents = 0\<rparr>, \<lparr>fd = 5, events = 1, revents = 0\<rparr>,
                 \<lparr>fd = 6, events = 1, revents = 0\<rparr>],
       m_pipe = \<lparr>read_end = 3, write_end = 4, read_closed = False\<rparr>\<rparr>,
      \<lparr>m_terminate = False, m_join = False, m_kernels = [(2, Thread 2)], m_users = []\<rparr>)
   = (Inr (\<lparr>m_th = Thread 1,
            m_ctxact = [(10, Suspended 0 [Act 1])],
            m_ctxitr = [Singular, Node 10],
            m_pfds = [\<lparr>fd = 3, events = 1, revents = 0\<rparr>, \<lparr>fd = 5, events = 1, revents = 1\<rparr>],
            m_pipe = \<lparr>read_end = 3, write_end = 4, read_closed = False\<rparr>\<rparr>,
           \<lparr>m_terminate = False, m_join = False, m_kernels = [(2, Thread 2)],
            m_users = [Suspended 0 [Act 2]]\<rparr>),
      [Lock, Push_ctx (Suspended 0 [Act 2]), Unlock])"
  using exec_body_restores_not_ready[OF partition_contract_in_order] by blast

end
